theory Spec2Isabelle
  imports Main
begin

section \<open>Session lifecycle and human synchronisation of the game manager\<close>

text \<open>
  A shallow embedding of \<^verbatim>\<open>server/game_manager.py\<close>. Python exceptions are values of
  the type \<open>exn\<close>; a function that may raise returns \<open>exn + 'a\<close> with \<open>Inl\<close> the
  exception. Mutation of the manager, of the module-level table
  \<^verbatim>\<open>human_action_futures\<close> and of the future objects it points to is explicit state
  passing. A coroutine is cut at its \<^verbatim>\<open>await\<close>s into segments; each segment is a function
  on the state, and the event loop is the function \<open>step\<close> over scheduler events.
\<close>

subsection \<open>Exceptions and strings\<close>

datatype exn =
    KeyError string          \<comment> \<open>\<^verbatim>\<open>raise KeyError(msg)\<close>\<close>
  | KeyError_key int         \<comment> \<open>a failed subscript \<^verbatim>\<open>self._records[game_id]\<close>\<close>
  | RuntimeError string
  | ValueError string
  | TimeoutError string
  | AttributeError string
  | Other_exception string   \<comment> \<open>any other subclass of \<^verbatim>\<open>Exception\<close>, with its \<^verbatim>\<open>str()\<close>\<close>
  | CancelledError           \<comment> \<open>\<^verbatim>\<open>asyncio.CancelledError\<close>: a \<^verbatim>\<open>BaseException\<close>, not an \<^verbatim>\<open>Exception\<close>\<close>

text \<open>What \<^verbatim>\<open>except Exception\<close> catches.\<close>

fun is_Exception :: "exn \<Rightarrow> bool" where
  "is_Exception CancelledError = False"
| "is_Exception _ = True"

function digits :: "nat \<Rightarrow> string" where
  "digits n = (if n < 10 then [''0123456789'' ! n]
               else digits (n div 10) @ [''0123456789'' ! (n mod 10)])"
  by pat_completeness auto
termination
  by (relation "measure (\<lambda>n. n)") auto

declare digits.simps [simp del]

text \<open>The decimal rendering of a Python \<^verbatim>\<open>int\<close> in an f-string.\<close>

definition str_int :: "int \<Rightarrow> string" where
  "str_int i = (if i < 0 then CHR ''-'' # digits (nat (- i)) else digits (nat i))"

text \<open>\<^verbatim>\<open>str(exc)\<close>: the message; a \<^verbatim>\<open>KeyError\<close> renders the \<^verbatim>\<open>repr\<close> of its argument.\<close>

fun str_exn :: "exn \<Rightarrow> string" where
  "str_exn (KeyError m) = [CHR 0x27] @ m @ [CHR 0x27]"
| "str_exn (KeyError_key k) = str_int k"
| "str_exn (RuntimeError m) = m"
| "str_exn (ValueError m) = m"
| "str_exn (TimeoutError m) = m"
| "str_exn (AttributeError m) = m"
| "str_exn (Other_exception m) = m"
| "str_exn CancelledError = ''''"

subsection \<open>The simulation as the manager reads it\<close>

text \<open>
  The engine (\<^verbatim>\<open>amongagents\<close>) is not part of the sources. Its objects are modelled by
  the attributes and method results that the manager reads. An attribute read through
  \<^verbatim>\<open>getattr(x, name, None)\<close> is an \<open>option\<close>; a method call is its result, \<open>Inl\<close> when
  the call raises.
\<close>

record player =
  name :: string
  location :: string
  color :: string
  is_alive :: bool
  all_info_prompt :: "exn + string"      \<comment> \<open>result of \<^verbatim>\<open>player.all_info_prompt()\<close>\<close>

record action =
  action_name :: "string option"         \<comment> \<open>\<^verbatim>\<open>action.get("name")\<close>\<close>
  requires_message :: "bool option"      \<comment> \<open>\<^verbatim>\<open>action.get("requires_message")\<close>\<close>

record web_state =
  ws_player_info :: "string option"
  ws_current_step :: "string option"
  ws_available_actions :: "action list option"

record agent =
  is_HumanAgent :: bool                            \<comment> \<open>\<^verbatim>\<open>isinstance(agent, HumanAgent)\<close>\<close>
  agent_player :: "player option"                  \<comment> \<open>\<^verbatim>\<open>getattr(agent, "player", None)\<close>\<close>
  current_available_actions :: "action list option"
  current_state_for_web :: "exn + web_state"       \<comment> \<open>result of \<^verbatim>\<open>get_current_state_for_web()\<close>\<close>

record log_entry =
  entry_phase :: "string option"
  entry_player :: "player option"
  entry_action :: "string option"        \<comment> \<open>\<^verbatim>\<open>str(action)\<close> when the action is present\<close>
  entry_round :: "int option"
  entry_timestep :: "int option"

record summary =
  summary_winner :: "int option"
  summary_winner_reason :: "string option"

record AmongUs =
  agents :: "agent list option"
  players :: "player list option"
  activity_log :: "log_entry list option"
  max_timesteps :: "int option option"   \<comment> \<open>\<^verbatim>\<open>game_config\<close> (absent: \<open>None\<close>) and its key \<^verbatim>\<open>max_timesteps\<close>\<close>
  current_phase :: "string option"
  timestep :: "int option"
  current_player :: "string option"
  summary_json :: "(string \<times> summary) list"

subsection \<open>Tasks, futures, records and the state of the process\<close>

datatype status = Initializing | Running | Completed | Error

fun status_str :: "status \<Rightarrow> string" where
  "status_str Initializing = ''initializing''"
| "status_str Running = ''running''"
| "status_str Completed = ''completed''"
| "status_str Error = ''error''"

text \<open>
  An \<^verbatim>\<open>asyncio.Task\<close> wrapping \<^verbatim>\<open>_run_game\<close>: not yet run, suspended at its only
  \<^verbatim>\<open>await\<close>, finished (with the exception that left the coroutine, if any), or cancelled.
  \<open>must_cancel\<close> is set by \<^verbatim>\<open>task.cancel()\<close> on a task that is not done.
\<close>

datatype task_phase = Task_unstarted | Task_awaiting | Task_done "exn option" | Task_cancelled

record task_obj =
  phase :: task_phase
  must_cancel :: bool

fun phase_done :: "task_phase \<Rightarrow> bool" where
  "phase_done (Task_done _) = True"
| "phase_done Task_cancelled = True"
| "phase_done _ = False"

definition task_done :: "task_obj \<Rightarrow> bool" where
  "task_done t = phase_done (phase t)"

text \<open>\<^verbatim>\<open>task.exception()\<close> of a done task; it raises on a cancelled one.\<close>

fun task_exception :: "task_obj \<Rightarrow> exn + exn option" where
  "task_exception t = (case phase t of Task_done e \<Rightarrow> Inr e | _ \<Rightarrow> Inl CancelledError)"

definition task_cancel :: "task_obj \<Rightarrow> task_obj" where
  "task_cancel t = (if task_done t then t else t\<lparr>must_cancel := True\<rparr>)"

record GameRecord =
  game_id :: int
  game :: AmongUs
  status :: status
  task :: "task_obj option"
  error :: "string option"
  winner :: "int option"
  winner_reason :: "string option"

record payload =
  action_index :: int
  message :: string

datatype future = Fut_pending | Fut_result payload | Fut_cancelled

fun future_done :: "future \<Rightarrow> bool" where
  "future_done Fut_pending = False"
| "future_done _ = True"

text \<open>Where a call of \<^verbatim>\<open>create_game\<close> stands; the number is the source line it is at.\<close>

datatype call_pc =
    Not_called
  | At_lock                  \<comment> \<open>waiting at \<^verbatim>\<open>async with self._init_lock\<close>\<close>
  | L118                     \<comment> \<open>lock held, before \<^verbatim>\<open>game_id = self._next_game_id\<close>\<close>
  | L119 int                 \<comment> \<open>before \<^verbatim>\<open>self._next_game_id += 1\<close>\<close>
  | L121 int                 \<comment> \<open>before the construction of the game and of its record\<close>
  | In_gate int nat          \<comment> \<open>in \<^verbatim>\<open>_wait_for_human_agent_ready\<close>, with its deadline\<close>
  | Returned int
  | Raised exn

text \<open>
  The manager (\<open>records\<close>, \<open>next_game_id\<close>, \<open>init_lock\<close>), the module-level table
  \<open>human_action_futures\<close> from game id to future object, the future objects by address,
  the address of the next future object to be created, and the calls of
  \<^verbatim>\<open>create_game\<close> in flight. \<open>init_lock\<close> is \<open>None\<close> when the lock is
  free and names the acquiring call otherwise. Two history variables record the past:
  \<open>entered\<close> lists the calls in the order they acquired the lock, \<open>allocated\<close> the
  ids in the order line 118 handed them out, each with its call.
\<close>

record state =
  records :: "int \<rightharpoonup> GameRecord"
  next_game_id :: int
  init_lock :: "nat option"
  human_action_futures :: "int \<rightharpoonup> nat"
  future_objects :: "nat \<Rightarrow> future"
  next_future :: nat
  calls :: "nat \<Rightarrow> call_pc"
  entered :: "nat list"
  allocated :: "(nat \<times> int) list"

definition init :: state where
  "init = \<lparr>records = Map.empty, next_game_id = 1, init_lock = None,
           human_action_futures = Map.empty, future_objects = (\<lambda>_. Fut_cancelled),
           next_future = 0, calls = (\<lambda>_. Not_called), entered = [], allocated = []\<rparr>"

subsection \<open>Finding agents\<close>

text \<open>\<^verbatim>\<open>getattr(game, "agents", None) or []\<close>\<close>

definition agents_or_empty :: "AmongUs \<Rightarrow> agent list" where
  "agents_or_empty g = (case agents g of None \<Rightarrow> [] | Some xs \<Rightarrow> xs)"

definition find_human_agent :: "AmongUs \<Rightarrow> agent option" where
  "find_human_agent g = List.find is_HumanAgent (agents_or_empty g)"

definition find_current_agent :: "AmongUs \<Rightarrow> agent option" where
  "find_current_agent g =
     (case current_player g of
        None \<Rightarrow> None
      | Some current_player_name \<Rightarrow>
          if current_player_name = '''' then None
          else List.find (\<lambda>a. case agent_player a of None \<Rightarrow> False
                                | Some p \<Rightarrow> name p = current_player_name)
                 (agents_or_empty g))"

subsection \<open>Submitting the human action\<close>

text \<open>\<^verbatim>\<open>speech_text or ""\<close>\<close>

definition or_empty :: "string option \<Rightarrow> string" where
  "or_empty t = (case t of None \<Rightarrow> '''' | Some x \<Rightarrow> if x = '''' then '''' else x)"

definition submit_human_action ::
    "state \<Rightarrow> int \<Rightarrow> int \<Rightarrow> string option \<Rightarrow> (exn + unit) \<times> state" where
  "submit_human_action s gid idx speech_text =
     (case records s gid of
        None \<Rightarrow> (Inl (KeyError (''Unknown game_id='' @ str_int gid)), s)
      | Some rec \<Rightarrow>
          if status rec \<in> {Completed, Error}
          then (Inl (RuntimeError (''Game '' @ str_int gid @ '' is already ''
                                   @ status_str (status rec) @ ''.'')), s)
          else
            (case find_human_agent (game rec) of
               None \<Rightarrow> (Inl (RuntimeError (''Game '' @ str_int gid @ '' has no human agent.'')), s)
             | Some human_agent \<Rightarrow>
                 (case human_action_futures s gid of
                    None \<Rightarrow>
                      (Inl (RuntimeError ''Game is not currently waiting for a human action.''), s)
                  | Some fut \<Rightarrow>
                      if future_done (future_objects s fut)
                      then (Inl (RuntimeError
                                   ''Game is not currently waiting for a human action.''), s)
                      else
                        let current_actions =
                              (case current_available_actions human_agent of
                                 None \<Rightarrow> [] | Some xs \<Rightarrow> xs)
                        in if idx < 0 \<or> idx \<ge> int (length current_actions)
                           then (Inl (ValueError (''action_index out of range: '' @ str_int idx)), s)
                           else (Inr (),
                                 s\<lparr>future_objects := (future_objects s)
                                     (fut := Fut_result \<lparr>action_index = idx,
                                                         message = or_empty speech_text\<rparr>)\<rparr>))))"

subsection \<open>The session task\<close>

text \<open>How \<^verbatim>\<open>await record.game.run_game()\<close> ends: it returns, or an exception leaves it.\<close>

datatype outcome = Returns | Raises exn

text \<open>The \<^verbatim>\<open>finally\<close> block of \<^verbatim>\<open>_run_game\<close> (lines 84 to 87).\<close>

definition cleanup_future :: "state \<Rightarrow> int \<Rightarrow> state" where
  "cleanup_future s gid =
     (let s' = (case human_action_futures s gid of
                  None \<Rightarrow> s
                | Some fut \<Rightarrow>
                    if \<not> future_done (future_objects s fut)
                    then s\<lparr>future_objects := (future_objects s)(fut := Fut_cancelled)\<rparr>
                    else s)
      in s'\<lparr>human_action_futures := (human_action_futures s')(gid := None)\<rparr>)"

definition put_record :: "state \<Rightarrow> int \<Rightarrow> GameRecord \<Rightarrow> state" where
  "put_record s gid rec = s\<lparr>records := (records s)(gid \<mapsto> rec)\<rparr>"

text \<open>Lines 71 to 74, up to the \<^verbatim>\<open>await\<close>.\<close>

definition run_game_begin :: "state \<Rightarrow> int \<Rightarrow> exn + state" where
  "run_game_begin s gid =
     (case records s gid of
        None \<Rightarrow> Inl (KeyError_key gid)
      | Some rec \<Rightarrow> Inr (put_record s gid (rec\<lparr>status := Running\<rparr>)))"

text \<open>
  Lines 75 to 87, from the \<^verbatim>\<open>await\<close> on: the result is the exception that leaves the
  coroutine, if any, and the new state. The record is the object bound at line 71; with
  no record under the id only the \<^verbatim>\<open>finally\<close> block has an effect.
\<close>

definition run_game_resume :: "state \<Rightarrow> int \<Rightarrow> outcome \<Rightarrow> exn option \<times> state" where
  "run_game_resume s gid out =
     (case out of
        Returns \<Rightarrow>
          (case records s gid of
             None \<Rightarrow> (None, cleanup_future s gid)
           | Some rec \<Rightarrow>
               let summary = map_of (summary_json (game rec)) (''Game '' @ str_int gid);
                   rec' = rec\<lparr>status := Completed,
                              winner := (case summary of None \<Rightarrow> None
                                         | Some m \<Rightarrow> summary_winner m),
                              winner_reason := (case summary of None \<Rightarrow> None
                                                | Some m \<Rightarrow> summary_winner_reason m)\<rparr>
               in (None, cleanup_future (put_record s gid rec') gid))
      | Raises exc \<Rightarrow>
          if is_Exception exc
          then (case records s gid of
                  None \<Rightarrow> (None, cleanup_future s gid)
                | Some rec \<Rightarrow>
                    (None, cleanup_future
                             (put_record s gid (rec\<lparr>status := Error,
                                                     error := Some (str_exn exc)\<rparr>)) gid))
          else (Some exc, cleanup_future s gid))"

subsection \<open>The readiness gate\<close>

datatype gate_step = Gate_return | Gate_raise exn | Gate_sleep

text \<open>The body of the loop of \<^verbatim>\<open>_wait_for_human_agent_ready\<close> (lines 92 to 102).\<close>

definition gate_body :: "state \<Rightarrow> int \<Rightarrow> gate_step" where
  "gate_body s gid =
     (case records s gid of
        None \<Rightarrow> Gate_raise (KeyError_key gid)
      | Some rec \<Rightarrow>
          if (case task rec of None \<Rightarrow> False | Some t \<Rightarrow> task_done t)
          then (case task rec of
                  None \<Rightarrow> Gate_sleep
                | Some t \<Rightarrow>
                    (case task_exception t of
                       Inl e \<Rightarrow> Gate_raise e
                     | Inr (Some exc) \<Rightarrow>
                         Gate_raise (RuntimeError
                           (''Game task failed during initialization: '' @ str_exn exc))
                     | Inr None \<Rightarrow>
                         Gate_raise (RuntimeError
                           ''Game finished before human initialization completed.'')))
          else if find_human_agent (game rec) \<noteq> None then Gate_return
          else Gate_sleep)"

text \<open>One iteration: the test of the loop against the clock reading, then the body.\<close>

definition gate_iteration :: "state \<Rightarrow> int \<Rightarrow> nat \<Rightarrow> nat \<Rightarrow> gate_step" where
  "gate_iteration s gid deadline now =
     (if now < deadline then gate_body s gid
      else Gate_raise (TimeoutError ''Timed out waiting for HumanAgent initialization.''))"

text \<open>
  The loop. Time is in milliseconds. \<open>world k\<close> is the state of the process that the
  iteration after \<open>k\<close> sleeps reads, \<open>lag k\<close> is what the \<open>k\<close>-th
  \<^verbatim>\<open>asyncio.sleep(0.05)\<close> takes beyond its 50 ms. The result is the exception or the
  normal return, with the number of sleeps and the last clock reading.
\<close>

function gate_loop ::
    "(nat \<Rightarrow> state) \<Rightarrow> (nat \<Rightarrow> nat) \<Rightarrow> int \<Rightarrow> nat \<Rightarrow> nat \<Rightarrow> nat \<Rightarrow> (exn + unit) \<times> nat \<times> nat" where
  "gate_loop world lag gid deadline k now =
     (if now < deadline
      then (case gate_body (world k) gid of
              Gate_return \<Rightarrow> (Inr (), k, now)
            | Gate_raise e \<Rightarrow> (Inl e, k, now)
            | Gate_sleep \<Rightarrow> gate_loop world lag gid deadline (Suc k) (now + 50 + lag k))
      else (Inl (TimeoutError ''Timed out waiting for HumanAgent initialization.''), k, now))"
  by pat_completeness auto
termination
  by (relation "measure (\<lambda>(world, lag, gid, deadline, k, now). deadline - now)") auto

declare gate_loop.simps [simp del]

definition wait_for_human_agent_ready ::
    "(nat \<Rightarrow> state) \<Rightarrow> (nat \<Rightarrow> nat) \<Rightarrow> int \<Rightarrow> nat \<Rightarrow> nat \<Rightarrow> (exn + unit) \<times> nat \<times> nat" where
  "wait_for_human_agent_ready world lag gid timeout_ms now =
     gate_loop world lag gid (now + timeout_ms) 0 now"

subsection \<open>Creating a game\<close>

text \<open>Lines 160 to 163: the handler of a failed gate.\<close>

definition gate_failed :: "state \<Rightarrow> int \<Rightarrow> exn \<Rightarrow> state" where
  "gate_failed s gid exc =
     (case records s gid of
        None \<Rightarrow> s
      | Some rec \<Rightarrow>
          put_record s gid (rec\<lparr>status := Error, error := Some (str_exn exc),
                                task := map_option task_cancel (task rec)\<rparr>))"

text \<open>Lines 166 and 167.\<close>

definition gate_passed :: "state \<Rightarrow> int \<Rightarrow> state" where
  "gate_passed s gid =
     (case records s gid of
        None \<Rightarrow> s
      | Some rec \<Rightarrow>
          if status rec \<notin> {Completed, Error} then put_record s gid (rec\<lparr>status := Running\<rparr>)
          else s)"

text \<open>Lines 153 to 156: the record of a new game, with its task created.\<close>

definition new_record :: "int \<Rightarrow> AmongUs \<Rightarrow> GameRecord" where
  "new_record gid gm =
     \<lparr>game_id = gid, game = gm, status = Initializing,
      task = Some \<lparr>phase = Task_unstarted, must_cancel = False\<rparr>,
      error = None, winner = None, winner_reason = None\<rparr>"

subsection \<open>The snapshot of a game\<close>

record position =
  pos_name :: string
  pos_room :: string
  pos_color :: string
  pos_is_alive :: bool

record meeting_message =
  mm_id :: string
  mm_timestep :: "int option"
  mm_round :: "int option"
  mm_player :: string
  mm_text :: string

record offered_action =
  oa_index :: nat
  oa_name :: string
  oa_requires_message :: bool

record snapshot =
  snap_game_id :: int
  snap_status :: status
  snap_error :: "string option"
  snap_winner :: "int option"
  snap_winner_reason :: "string option"
  snap_initialized :: bool
  snap_has_human :: bool
  snap_timestep :: "int option"
  snap_max_timesteps :: "int option"
  snap_current_phase :: "string option"
  snap_current_player :: "string option"
  snap_is_human_turn :: bool
  snap_human_player_name :: "string option"
  snap_current_step :: "string option"
  snap_player_info :: "string option"
  snap_available_actions :: "offered_action list"
  snap_player_positions :: "position list"
  snap_meeting_messages :: "meeting_message list"

definition serialize_player_positions :: "AmongUs \<Rightarrow> position list" where
  "serialize_player_positions g =
     map (\<lambda>p. \<lparr>pos_name = name p, pos_room = location p, pos_color = color p,
                pos_is_alive = is_alive p\<rparr>)
         (case players g of None \<Rightarrow> [] | Some ps \<Rightarrow> ps)"

text \<open>The ASCII characters that \<^verbatim>\<open>\s\<close> and \<^verbatim>\<open>str.strip\<close> take for white space.\<close>

definition is_space :: "char \<Rightarrow> bool" where
  "is_space c = (of_char c \<in> {9, 10, 11, 12, 13, 28, 29, 30, 31, 32 :: nat})"

definition strip :: "string \<Rightarrow> string" where
  "strip t = rev (dropWhile is_space (rev (dropWhile is_space t)))"

text \<open>
  Group 1 of \<^verbatim>\<open>^SPEAK\s*:?\s*(.*)$\<close> on a text that starts with \<^verbatim>\<open>SPEAK\<close>, stripped;
  an empty text becomes three dots.
\<close>

definition speak_text :: "string \<Rightarrow> string" where
  "speak_text action_text =
     (let r1 = dropWhile is_space (drop 5 action_text);
          r2 = (case r1 of c # r \<Rightarrow> if c = CHR '':'' then r else r1 | [] \<Rightarrow> r1);
          message_text = strip (dropWhile is_space r2)
      in if message_text = [] then ''...'' else message_text)"

text \<open>An optional integer in an f-string.\<close>

definition str_opt_int :: "int option \<Rightarrow> string" where
  "str_opt_int x = (case x of None \<Rightarrow> ''None'' | Some i \<Rightarrow> str_int i)"

fun serialize_meeting_messages_list :: "log_entry list \<Rightarrow> meeting_message list" where
  "serialize_meeting_messages_list [] = []"
| "serialize_meeting_messages_list (entry # rest) =
     (if entry_phase entry \<noteq> Some ''meeting'' then serialize_meeting_messages_list rest
      else
        (case (entry_player entry, entry_action entry) of
           (Some player_obj, Some action_text) \<Rightarrow>
             if \<not> (take 5 action_text = ''SPEAK'') then serialize_meeting_messages_list rest
             else
               let message_text = speak_text action_text;
                   message_id = str_opt_int (entry_timestep entry) @ '':''
                                @ str_opt_int (entry_round entry) @ '':''
                                @ name player_obj @ '':'' @ message_text
               in \<lparr>mm_id = message_id, mm_timestep = entry_timestep entry,
                    mm_round = entry_round entry, mm_player = name player_obj,
                    mm_text = message_text\<rparr> # serialize_meeting_messages_list rest
         | _ \<Rightarrow> serialize_meeting_messages_list rest))"

definition serialize_meeting_messages :: "AmongUs \<Rightarrow> meeting_message list" where
  "serialize_meeting_messages g =
     serialize_meeting_messages_list (case activity_log g of None \<Rightarrow> [] | Some es \<Rightarrow> es)"

text \<open>Lines 238 to 245: the actions offered, numbered from 0.\<close>

definition offered_actions :: "action list \<Rightarrow> offered_action list" where
  "offered_actions raw_actions =
     map (\<lambda>(i, a). \<lparr>oa_index = i,
                     oa_name = (case action_name a of None \<Rightarrow> [] | Some n \<Rightarrow> n),
                     oa_requires_message = (case requires_message a of None \<Rightarrow> False
                                            | Some b \<Rightarrow> b)\<rparr>)
         (enumerate 0 raw_actions)"

text \<open>
  Lines 230 to 251: the actions, the player's information and the current step. The only
  \<^verbatim>\<open>try\<close> is around \<^verbatim>\<open>all_info_prompt()\<close>, and it catches \<^verbatim>\<open>Exception\<close>.
\<close>

definition turn_view ::
    "agent option \<Rightarrow> agent option \<Rightarrow> exn + offered_action list \<times> string option \<times> string option" where
  "turn_view current_agent human_agent =
     (let is_human_turn = (case current_agent of None \<Rightarrow> False | Some a \<Rightarrow> is_HumanAgent a)
      in if is_human_turn \<and> human_agent \<noteq> None
         then (case human_agent of
                 None \<Rightarrow> Inr ([], None, None)
               | Some h \<Rightarrow>
                   (case current_state_for_web h of
                      Inl e \<Rightarrow> Inl e
                    | Inr human_state \<Rightarrow>
                        Inr (offered_actions (case ws_available_actions human_state of
                                                None \<Rightarrow> [] | Some xs \<Rightarrow> xs),
                             ws_player_info human_state, ws_current_step human_state)))
         else (case current_agent of
                 None \<Rightarrow> Inr ([], None, None)
               | Some a \<Rightarrow>
                   (case agent_player a of
                      None \<Rightarrow> Inr ([], None, None)
                    | Some p \<Rightarrow>
                        (case all_info_prompt p of
                           Inl e \<Rightarrow> if is_Exception e then Inr ([], None, None) else Inl e
                         | Inr info \<Rightarrow> Inr ([], Some info, None)))))"

text \<open>Line 269: \<^verbatim>\<open>human_agent.player.name if human_agent else None\<close>.\<close>

definition human_player_name :: "agent option \<Rightarrow> exn + string option" where
  "human_player_name human_agent =
     (case human_agent of
        None \<Rightarrow> Inr None
      | Some h \<Rightarrow>
          (case agent_player h of
             None \<Rightarrow> Inl (AttributeError ''name'')
           | Some p \<Rightarrow> Inr (Some (name p))))"

definition get_state :: "state \<Rightarrow> int \<Rightarrow> exn + snapshot" where
  "get_state s gid =
     (case records s gid of
        None \<Rightarrow> Inl (KeyError (''Unknown game_id='' @ str_int gid))
      | Some rec \<Rightarrow>
          let g = game rec;
              current_agent = find_current_agent g;
              is_human_turn = (case current_agent of None \<Rightarrow> False | Some a \<Rightarrow> is_HumanAgent a);
              human_agent = find_human_agent g
          in (case turn_view current_agent human_agent of
                Inl e \<Rightarrow> Inl e
              | Inr (available_actions, player_info, current_step) \<Rightarrow>
                  (case human_player_name human_agent of
                     Inl e \<Rightarrow> Inl e
                   | Inr human_name \<Rightarrow>
                       Inr \<lparr>snap_game_id = gid, snap_status = status rec,
                            snap_error = error rec, snap_winner = winner rec,
                            snap_winner_reason = winner_reason rec,
                            snap_initialized = (agents_or_empty g \<noteq> []),
                            snap_has_human = (human_agent \<noteq> None),
                            snap_timestep = timestep g,
                            snap_max_timesteps = (case max_timesteps g of None \<Rightarrow> None
                                                  | Some m \<Rightarrow> m),
                            snap_current_phase = current_phase g,
                            snap_current_player = current_player g,
                            snap_is_human_turn = is_human_turn,
                            snap_human_player_name = human_name,
                            snap_current_step = current_step,
                            snap_player_info = player_info,
                            snap_available_actions = available_actions,
                            snap_player_positions = serialize_player_positions g,
                            snap_meeting_messages = serialize_meeting_messages g\<rparr>)))"

subsection \<open>The event loop\<close>

text \<open>
  The steps that the event loop interleaves. A call of \<^verbatim>\<open>create_game\<close> is named by a
  number. The steps of a call inside the lock are taken one source line at a time, so
  that what keeps two calls apart is the lock and not the granularity of the model.
  A step that is not enabled leaves the state as it is.
\<close>

datatype event =
    Call nat "string option"            \<comment> \<open>lines 111 to 115, with the value of \<^verbatim>\<open>OPENROUTER_API_KEY\<close>\<close>
  | Acquire nat                         \<comment> \<open>line 117\<close>
  | Read_id nat                         \<comment> \<open>line 118\<close>
  | Incr_id nat                         \<comment> \<open>line 119\<close>
  | Construct nat "exn + AmongUs" nat   \<comment> \<open>lines 121 to 156 and line 90: what the
                                            constructors give, and the clock reading\<close>
  | Poll nat nat                        \<comment> \<open>one iteration of the gate, with the clock reading\<close>
  | Task_start int                      \<comment> \<open>the first step of the task of a game\<close>
  | Task_finish int outcome             \<comment> \<open>the task resumes from its \<^verbatim>\<open>await\<close>\<close>
  | Engine int AmongUs                  \<comment> \<open>the engine changes the simulation of a game\<close>
  | Human_waits int                     \<comment> \<open>the human agent registers a new future\<close>
  | Human_resumes int                   \<comment> \<open>the human agent retires its resolved future\<close>
  | Submit int int "string option"      \<comment> \<open>a call of \<^verbatim>\<open>submit_human_action\<close>\<close>

definition set_pc :: "state \<Rightarrow> nat \<Rightarrow> call_pc \<Rightarrow> state" where
  "set_pc s c pc = s\<lparr>calls := (calls s)(c := pc)\<rparr>"

text \<open>Leaving \<^verbatim>\<open>async with self._init_lock\<close>, by return or by exception.\<close>

definition release :: "state \<Rightarrow> state" where
  "release s = s\<lparr>init_lock := None\<rparr>"

definition set_task_phase :: "state \<Rightarrow> int \<Rightarrow> task_phase \<Rightarrow> state" where
  "set_task_phase s gid ph =
     (case records s gid of
        None \<Rightarrow> s
      | Some rec \<Rightarrow> put_record s gid (rec\<lparr>task := map_option (\<lambda>t. t\<lparr>phase := ph\<rparr>) (task rec)\<rparr>))"

text \<open>The state of a task whose coroutine has ended, from the exception that left it.\<close>

definition ended_phase :: "exn option \<Rightarrow> task_phase" where
  "ended_phase exc =
     (case exc of None \<Rightarrow> Task_done None
      | Some e \<Rightarrow> if e = CancelledError then Task_cancelled else Task_done (Some e))"

text \<open>
  Modelled from the spec: the engine's \<^verbatim>\<open>run_game\<close> is not in the sources. A task that
  was asked to cancel receives \<^verbatim>\<open>CancelledError\<close> at its \<^verbatim>\<open>await\<close>, and the engine lets
  it through: "the task stops at its next suspension point" (section 4.2).
\<close>

definition engine_outcome :: "task_obj \<Rightarrow> outcome \<Rightarrow> bool" where
  "engine_outcome t out = (must_cancel t \<longrightarrow> out = Raises CancelledError)"

text \<open>
  Modelled from the spec: the human agent is not in the sources. It creates the pending
  request "immediately before suspending" (section 3), inside the running session task,
  as a new future object under the id of its game.
\<close>

definition human_waits :: "state \<Rightarrow> int \<Rightarrow> state" where
  "human_waits s gid =
     (case records s gid of
        None \<Rightarrow> s
      | Some rec \<Rightarrow>
          if map_option phase (task rec) = Some Task_awaiting
          then s\<lparr>human_action_futures := (human_action_futures s)(gid \<mapsto> next_future s),
                 future_objects := (future_objects s)(next_future s := Fut_pending),
                 next_future := Suc (next_future s)\<rparr>
          else s)"

text \<open>
  Modelled from the spec: the human agent is not in the sources. A request that is
  fulfilled or cancelled "is immediately removed from any lookup table keyed by session
  id" (section 3).
\<close>

definition human_resumes :: "state \<Rightarrow> int \<Rightarrow> state" where
  "human_resumes s gid =
     (case human_action_futures s gid of
        None \<Rightarrow> s
      | Some fut \<Rightarrow>
          if future_done (future_objects s fut)
          then s\<lparr>human_action_futures := (human_action_futures s)(gid := None)\<rparr>
          else s)"

text \<open>
  The first step of a task. A task that was cancelled before it ran never enters the
  body of its coroutine.
\<close>

definition task_start :: "state \<Rightarrow> int \<Rightarrow> state" where
  "task_start s gid =
     (case records s gid of
        None \<Rightarrow> s
      | Some rec \<Rightarrow>
          (case task rec of
             None \<Rightarrow> s
           | Some t \<Rightarrow>
               if phase t \<noteq> Task_unstarted then s
               else if must_cancel t then set_task_phase s gid Task_cancelled
               else (case run_game_begin s gid of
                       Inl e \<Rightarrow> set_task_phase s gid (Task_done (Some e))
                     | Inr s' \<Rightarrow> set_task_phase s' gid Task_awaiting)))"

definition task_finish :: "state \<Rightarrow> int \<Rightarrow> outcome \<Rightarrow> state" where
  "task_finish s gid out =
     (case records s gid of
        None \<Rightarrow> s
      | Some rec \<Rightarrow>
          (case task rec of
             None \<Rightarrow> s
           | Some t \<Rightarrow>
               if phase t = Task_awaiting \<and> engine_outcome t out
               then (case run_game_resume s gid out of
                       (exc, s') \<Rightarrow> set_task_phase s' gid (ended_phase exc))
               else s))"

text \<open>The timeout of the gate, \<^verbatim>\<open>timeout_seconds = 10.0\<close>, in milliseconds.\<close>

definition timeout_ms :: nat where
  "timeout_ms = 10000"

fun step :: "event \<Rightarrow> state \<Rightarrow> state" where
  "step (Call c key) s =
     (if calls s c = Not_called
      then (if key = None \<or> key = Some []
            then set_pc s c (Raised (RuntimeError ''OPENROUTER_API_KEY is required.''))
            else set_pc s c At_lock)
      else s)"
| "step (Acquire c) s =
     (if calls s c = At_lock \<and> init_lock s = None
      then (set_pc s c L118)\<lparr>init_lock := Some c, entered := entered s @ [c]\<rparr>
      else s)"
| "step (Read_id c) s =
     (if calls s c = L118
      then (set_pc s c (L119 (next_game_id s)))
             \<lparr>allocated := allocated s @ [(c, next_game_id s)]\<rparr>
      else s)"
| "step (Incr_id c) s =
     (case calls s c of
        L119 g \<Rightarrow> (set_pc s c (L121 g))\<lparr>next_game_id := next_game_id s + 1\<rparr>
      | _ \<Rightarrow> s)"
| "step (Construct c res now) s =
     (case calls s c of
        L121 g \<Rightarrow>
          (case res of
             Inl e \<Rightarrow> release (set_pc s c (Raised e))
           | Inr gm \<Rightarrow> set_pc (put_record s g (new_record g gm)) c (In_gate g (now + timeout_ms)))
      | _ \<Rightarrow> s)"
| "step (Poll c now) s =
     (case calls s c of
        In_gate g deadline \<Rightarrow>
          (case gate_iteration s g deadline now of
             Gate_sleep \<Rightarrow> s
           | Gate_return \<Rightarrow> release (set_pc (gate_passed s g) c (Returned g))
           | Gate_raise e \<Rightarrow>
               release (set_pc (if is_Exception e then gate_failed s g e else s) c (Raised e)))
      | _ \<Rightarrow> s)"
| "step (Task_start g) s = task_start s g"
| "step (Task_finish g out) s = task_finish s g out"
| "step (Engine g gm) s =
     (case records s g of None \<Rightarrow> s | Some rec \<Rightarrow> put_record s g (rec\<lparr>game := gm\<rparr>))"
| "step (Human_waits g) s = human_waits s g"
| "step (Human_resumes g) s = human_resumes s g"
| "step (Submit g idx speech_text) s = snd (submit_human_action s g idx speech_text)"

fun run :: "event list \<Rightarrow> state \<Rightarrow> state" where
  "run [] s = s"
| "run (e # es) s = run es (step e s)"

subsection \<open>A concrete session\<close>

text \<open>
  A game with one human agent, who is offered four actions, and one other agent; the
  events that create it, start its task and bring it to wait for the human.
\<close>

definition demo_player :: player where
  "demo_player = \<lparr>name = ''Ann'', location = ''Cafeteria'', color = ''red'', is_alive = True,
                   all_info_prompt = Inr ''You are Ann.''\<rparr>"

definition demo_bot_player :: player where
  "demo_bot_player = \<lparr>name = ''Bob'', location = ''Admin'', color = ''blue'', is_alive = True,
                       all_info_prompt = Inl (Other_exception ''no prompt'')\<rparr>"

definition demo_actions :: "action list" where
  "demo_actions =
     [\<lparr>action_name = Some ''MOVE'', requires_message = Some False\<rparr>,
      \<lparr>action_name = Some ''SPEAK'', requires_message = Some True\<rparr>,
      \<lparr>action_name = Some ''VOTE'', requires_message = None\<rparr>,
      \<lparr>action_name = None, requires_message = Some False\<rparr>]"

definition demo_human :: agent where
  "demo_human = \<lparr>is_HumanAgent = True, agent_player = Some demo_player,
                  current_available_actions = Some demo_actions,
                  current_state_for_web =
                    Inr \<lparr>ws_player_info = Some ''You are Ann.'', ws_current_step = Some ''1'',
                         ws_available_actions = Some demo_actions\<rparr>\<rparr>"

definition demo_bot :: agent where
  "demo_bot = \<lparr>is_HumanAgent = False, agent_player = Some demo_bot_player,
                current_available_actions = None,
                current_state_for_web = Inl (AttributeError ''get_current_state_for_web'')\<rparr>"

definition demo_game :: AmongUs where
  "demo_game = \<lparr>agents = Some [demo_bot, demo_human],
                 players = Some [demo_bot_player, demo_player],
                 activity_log = None, max_timesteps = Some (Some 50),
                 current_phase = Some ''task'', timestep = Some 0,
                 current_player = Some ''Ann'',
                 summary_json = [(''Game 1'', \<lparr>summary_winner = Some 1,
                                                summary_winner_reason = Some ''votes''\<rparr>)]\<rparr>"

text \<open>The simulation before the engine has dealt the agents.\<close>

definition blank_game :: AmongUs where
  "blank_game = \<lparr>agents = None, players = None, activity_log = None, max_timesteps = None,
                  current_phase = None, timestep = None, current_player = None,
                  summary_json = []\<rparr>"

definition demo_create :: "event list" where
  "demo_create = [Call 0 (Some ''key''), Acquire 0, Read_id 0, Incr_id 0,
                  Construct 0 (Inr blank_game) 0, Poll 0 0, Task_start 1,
                  Engine 1 demo_game, Poll 0 50]"

definition demo_waiting :: state where
  "demo_waiting = run (demo_create @ [Human_waits 1]) init"

definition demo_running :: state where
  "demo_running = run demo_create init"

definition demo_finished :: state where
  "demo_finished = run (demo_create @ [Human_waits 1, Task_finish 1 Returns]) init"

definition demo_no_human :: state where
  "demo_no_human = run (demo_create @ [Human_waits 1, Engine 1 blank_game]) init"

definition demo_submitted :: state where
  "demo_submitted = run (demo_create @ [Human_waits 1, Submit 1 3 (Some ''hello'')]) init"

text \<open>The session after the human agent has taken the result of the submission.\<close>

definition demo_retired :: state where
  "demo_retired = run [Human_resumes 1] demo_submitted"

subsection \<open>What the gate observes\<close>

text \<open>The test of line 93, and the exception of a finished task (line 94).\<close>

definition task_finished :: "state \<Rightarrow> int \<Rightarrow> bool" where
  "task_finished s gid =
     (case records s gid of
        None \<Rightarrow> False
      | Some rec \<Rightarrow> (case task rec of None \<Rightarrow> False | Some t \<Rightarrow> task_done t))"

definition task_failure :: "state \<Rightarrow> int \<Rightarrow> exn option" where
  "task_failure s gid =
     (case records s gid of
        None \<Rightarrow> None
      | Some rec \<Rightarrow>
          (case task rec of
             None \<Rightarrow> None
           | Some t \<Rightarrow> (case phase t of Task_done e \<Rightarrow> e | _ \<Rightarrow> None)))"

text \<open>
  The session whose task has started but whose engine has not yet dealt the agents, and
  the session whose simulation ran to its end before any human agent was seen.
\<close>

definition demo_begin :: "event list" where
  "demo_begin = [Call 0 (Some ''key''), Acquire 0, Read_id 0, Incr_id 0,
                 Construct 0 (Inr blank_game) 0, Poll 0 0, Task_start 1]"

definition demo_starting :: state where
  "demo_starting = run demo_begin init"

definition demo_early_end :: state where
  "demo_early_end = run (demo_begin @ [Task_finish 1 Returns]) init"

text \<open>
  The session whose call has just created the task, and the sessions whose run loop
  failed with an exception, or was cancelled, before any human agent was seen.
\<close>

definition demo_created :: state where
  "demo_created = run [Call 0 (Some ''key''), Acquire 0, Read_id 0, Incr_id 0,
                       Construct 0 (Inr blank_game) 0] init"

definition demo_failed_early :: state where
  "demo_failed_early = run (demo_begin @ [Task_finish 1 (Raises (Other_exception ''boom''))]) init"

definition demo_cancelled_early :: state where
  "demo_cancelled_early = run (demo_begin @ [Task_finish 1 (Raises CancelledError)]) init"

text \<open>
  The session at the human's turn with a human agent whose state cannot be read, and
  the session at the turn of the other agent, whose prompt cannot be read.
\<close>

definition demo_broken_human :: agent where
  "demo_broken_human =
     demo_human\<lparr>current_state_for_web := Inl (Other_exception ''state unavailable'')\<rparr>"

definition demo_broken_game :: AmongUs where
  "demo_broken_game = demo_game\<lparr>agents := Some [demo_bot, demo_broken_human]\<rparr>"

definition demo_broken :: state where
  "demo_broken = run (demo_create @ [Engine 1 demo_broken_game]) init"

definition demo_bot_turn_game :: AmongUs where
  "demo_bot_turn_game = demo_game\<lparr>current_player := Some ''Bob''\<rparr>"

definition demo_bot_turn :: state where
  "demo_bot_turn = run (demo_create @ [Engine 1 demo_bot_turn_game]) init"

subsection \<open>Invariants of the event loop\<close>

text \<open>The calls that are between acquiring and releasing the lock, and the id a call holds.\<close>

fun in_critical :: "call_pc \<Rightarrow> bool" where
  "in_critical L118 = True"
| "in_critical (L119 _) = True"
| "in_critical (L121 _) = True"
| "in_critical (In_gate _ _) = True"
| "in_critical _ = False"

fun holds_id :: "call_pc \<Rightarrow> int option" where
  "holds_id (L119 g) = Some g"
| "holds_id (L121 g) = Some g"
| "holds_id (In_gate g _) = Some g"
| "holds_id (Returned g) = Some g"
| "holds_id _ = None"

definition inv_lock :: "state \<Rightarrow> bool" where
  "inv_lock s = (\<forall>c. in_critical (calls s c) \<longrightarrow> init_lock s = Some c)"

definition inv_ids :: "state \<Rightarrow> bool" where
  "inv_ids s =
     (sorted_wrt (<) (map snd (allocated s))
      \<and> (\<forall>c g. (c, g) \<in> set (allocated s) \<longrightarrow>
             g < next_game_id s \<or> (calls s c = L119 g \<and> g = next_game_id s))
      \<and> (\<forall>c g. holds_id (calls s c) = Some g \<longrightarrow> (c, g) \<in> set (allocated s))
      \<and> (\<forall>g. records s g \<noteq> None \<longrightarrow> g < next_game_id s)
      \<and> (\<forall>c g. calls s c = L119 g \<or> calls s c = L121 g \<longrightarrow> records s g = None))"

definition inv_entered :: "state \<Rightarrow> bool" where
  "inv_entered s =
     ((\<forall>c. calls s c = L118 \<longrightarrow> entered s = map fst (allocated s) @ [c])
      \<and> ((\<forall>c. calls s c \<noteq> L118) \<longrightarrow> entered s = map fst (allocated s))
      \<and> distinct (entered s)
      \<and> (\<forall>c. c \<in> set (entered s) \<longrightarrow> calls s c \<noteq> Not_called \<and> calls s c \<noteq> At_lock))"

text \<open>
  What holds of every record: it has its task; a terminal status means that the task is
  done or has been asked to cancel; the result fields are unset while the task runs; a
  task that is done holds no exception.
\<close>

definition record_ok :: "GameRecord \<Rightarrow> bool" where
  "record_ok rec =
     (case task rec of
        None \<Rightarrow> False
      | Some t \<Rightarrow>
          (status rec = Completed \<or> status rec = Error \<longrightarrow> task_done t \<or> must_cancel t)
          \<and> (\<not> task_done t \<longrightarrow> winner rec = None \<and> winner_reason rec = None)
          \<and> (phase t = Task_done None \<or> phase t = Task_cancelled \<or> \<not> task_done t))"

definition inv_task :: "state \<Rightarrow> bool" where
  "inv_task s = (\<forall>g rec. records s g = Some rec \<longrightarrow> record_ok rec)"

text \<open>A call in the gate or returned has its record in the registry.\<close>

definition inv_rec :: "state \<Rightarrow> bool" where
  "inv_rec s =
     (\<forall>c g. (calls s c = Returned g \<or> (\<exists>d. calls s c = In_gate g d)) \<longrightarrow> records s g \<noteq> None)"

text \<open>
  A future is registered only for a game whose task is at its \<^verbatim>\<open>await\<close>; the registered
  futures are distinct objects that have been created.
\<close>

definition inv_fut :: "state \<Rightarrow> bool" where
  "inv_fut s =
     ((\<forall>g a. human_action_futures s g = Some a \<longrightarrow>
         (\<exists>rec t. records s g = Some rec \<and> task rec = Some t \<and> phase t = Task_awaiting))
      \<and> (\<forall>g a. human_action_futures s g = Some a \<longrightarrow> a < next_future s)
      \<and> (\<forall>g g' a. human_action_futures s g = Some a \<and> human_action_futures s g' = Some a
             \<longrightarrow> g = g'))"

definition inv :: "state \<Rightarrow> bool" where
  "inv s = (inv_lock s \<and> inv_ids s \<and> inv_entered s \<and> inv_task s \<and> inv_rec s \<and> inv_fut s)"

text \<open>The ids that calls have returned, in the order in which the calls entered the lock.\<close>

definition returned_of :: "(nat \<Rightarrow> call_pc) \<Rightarrow> nat \<Rightarrow> int option" where
  "returned_of cs c = (case cs c of Returned g \<Rightarrow> Some g | _ \<Rightarrow> None)"

definition returned_ids :: "state \<Rightarrow> int list" where
  "returned_ids s = List.map_filter (returned_of (calls s)) (entered s)"

text \<open>
  Two calls that interleave: call 1 takes the lock first, call 0 tries every step of its
  own while call 1 holds it, and enters after call 1 has returned. \<open>demo_two_mid\<close> is
  the state in which call 1 has read its id and call 0 waits for the lock.
\<close>

definition demo_two_head :: "event list" where
  "demo_two_head = [Call 0 (Some ''key''), Call 1 (Some ''key''), Acquire 1, Acquire 0,
                    Read_id 1, Read_id 0, Incr_id 1]"

definition demo_two_tail :: "event list" where
  "demo_two_tail = [Incr_id 0, Construct 1 (Inr blank_game) 0, Construct 0 (Inr blank_game) 0,
                    Task_start 1, Engine 1 demo_game, Poll 1 50,
                    Acquire 0, Read_id 0, Incr_id 0, Construct 0 (Inr blank_game) 60,
                    Task_start 2, Engine 2 demo_game, Poll 0 110]"

definition demo_two_mid :: state where
  "demo_two_mid = run demo_two_head init"

definition demo_two :: state where
  "demo_two = run (demo_two_head @ demo_two_tail) init"

text \<open>Whether some call is in the gate of a game.\<close>

definition in_gate_of :: "state \<Rightarrow> int \<Rightarrow> bool" where
  "in_gate_of s g = (\<exists>c d. calls s c = In_gate g d)"

subsection \<open>The flags of the offered actions\<close>

text \<open>
  The state in which every offered action of every game has its \<^verbatim>\<open>requires_message\<close>
  flag replaced by \<open>fl\<close> of the action, and nothing else is changed.
\<close>

definition with_flags :: "(action \<Rightarrow> bool option) \<Rightarrow> agent \<Rightarrow> agent" where
  "with_flags fl a =
     a\<lparr>current_available_actions :=
         map_option (map (\<lambda>x. x\<lparr>requires_message := fl x\<rparr>)) (current_available_actions a)\<rparr>"

definition reflag :: "(action \<Rightarrow> bool option) \<Rightarrow> state \<Rightarrow> state" where
  "reflag fl s =
     s\<lparr>records := (\<lambda>g. map_option
          (\<lambda>rec. rec\<lparr>game := (game rec)\<lparr>agents :=
                     map_option (map (with_flags fl)) (agents (game rec))\<rparr>\<rparr>)
          (records s g))\<rparr>"

subsection \<open>The effect of the steps\<close>

text \<open>
  The steps of the tasks, of the engine, of the human agent and of a submission leave
  the calls of \<^verbatim>\<open>create_game\<close>, the lock, the counter and the ids of the registry as
  they are.
\<close>

definition same_control :: "state \<Rightarrow> state \<Rightarrow> bool" where
  "same_control s s' = (calls s' = calls s \<and> init_lock s' = init_lock s
     \<and> allocated s' = allocated s \<and> entered s' = entered s
     \<and> next_game_id s' = next_game_id s
     \<and> (\<forall>g. records s' g = None \<longleftrightarrow> records s g = None))"

text \<open>
  The steps of a call of \<^verbatim>\<open>create_game\<close>.
\<close>

definition control_event :: "event \<Rightarrow> bool" where
  "control_event e = (case e of Call _ _ \<Rightarrow> True | Acquire _ \<Rightarrow> True | Read_id _ \<Rightarrow> True
     | Incr_id _ \<Rightarrow> True | Construct _ _ _ \<Rightarrow> True | Poll _ _ \<Rightarrow> True | _ \<Rightarrow> False)"

text \<open>
  The record and the future objects that the end of a task leaves (lines 75 to 87).
\<close>

definition finished_record :: "int \<Rightarrow> GameRecord \<Rightarrow> task_obj \<Rightarrow> outcome \<Rightarrow> GameRecord" where
  "finished_record gid rec t out =
     (case out of
        Returns \<Rightarrow>
          rec\<lparr>status := Completed,
              winner := (case map_of (summary_json (game rec)) (''Game '' @ str_int gid) of
                           None \<Rightarrow> None | Some m \<Rightarrow> summary_winner m),
              winner_reason := (case map_of (summary_json (game rec)) (''Game '' @ str_int gid) of
                                  None \<Rightarrow> None | Some m \<Rightarrow> summary_winner_reason m),
              task := Some (t\<lparr>phase := Task_done None\<rparr>)\<rparr>
      | Raises exc \<Rightarrow>
          if is_Exception exc
          then rec\<lparr>status := Error, error := Some (str_exn exc),
                   task := Some (t\<lparr>phase := Task_done None\<rparr>)\<rparr>
          else rec\<lparr>task := Some (t\<lparr>phase := Task_cancelled\<rparr>)\<rparr>)"

definition cancelled_futures :: "state \<Rightarrow> int \<Rightarrow> nat \<Rightarrow> future" where
  "cancelled_futures s gid =
     (case human_action_futures s gid of
        None \<Rightarrow> future_objects s
      | Some a \<Rightarrow> if future_done (future_objects s a) then future_objects s
                  else (future_objects s)(a := Fut_cancelled))"

text \<open>
  The record that the first step of a task leaves (line 73, or the cancellation).
\<close>

definition started_record :: "GameRecord \<Rightarrow> task_obj \<Rightarrow> GameRecord" where
  "started_record rec t =
     (if must_cancel t then rec\<lparr>task := Some (t\<lparr>phase := Task_cancelled\<rparr>)\<rparr>
      else rec\<lparr>status := Running, task := Some (t\<lparr>phase := Task_awaiting\<rparr>)\<rparr>)"

subsection \<open>Requests that are no longer pending\<close>

text \<open>
  No request is pending for a game when no future is registered under its id or the
  registered future is done. \<open>unregistered\<close> is the state without the entry of the id.
\<close>

definition no_pending :: "state \<Rightarrow> int \<Rightarrow> bool" where
  "no_pending s gid =
     (case human_action_futures s gid of
        None \<Rightarrow> True
      | Some fut \<Rightarrow> future_done (future_objects s fut))"

definition unregistered :: "state \<Rightarrow> int \<Rightarrow> state" where
  "unregistered s gid = s\<lparr>human_action_futures := (human_action_futures s)(gid := None)\<rparr>"

text \<open>The statuses \<^verbatim>\<open>"completed"\<close> and \<^verbatim>\<open>"error"\<close>.\<close>

definition terminal :: "status \<Rightarrow> bool" where
  "terminal st = (st = Completed \<or> st = Error)"

section \<open>Properties\<close>

subsection \<open>Evaluation of the concrete session\<close>

lemmas step_defs = set_pc_def release_def put_record_def new_record_def timeout_ms_def
  gate_iteration_def gate_body_def gate_passed_def gate_failed_def task_start_def task_finish_def
  run_game_begin_def run_game_resume_def set_task_phase_def ended_phase_def engine_outcome_def
  human_waits_def human_resumes_def cleanup_future_def task_done_def task_cancel_def
  find_human_agent_def agents_or_empty_def

lemmas demo_defs = demo_create_def init_def blank_game_def demo_game_def demo_human_def
  demo_bot_def demo_actions_def

lemma demo_waiting_eval:
  "records demo_waiting 1 = Some \<lparr>game_id = 1, game = demo_game, status = Running,
      task = Some \<lparr>phase = Task_awaiting, must_cancel = False\<rparr>,
      error = None, winner = None, winner_reason = None\<rparr>"
  "records demo_waiting 2 = None"
  "human_action_futures demo_waiting 1 = Some 0"
  "future_objects demo_waiting 0 = Fut_pending"
  "calls demo_waiting 0 = Returned 1"
  by (simp_all add: demo_waiting_def demo_defs step_defs)

lemma demo_running_eval:
  "records demo_running 1 = Some \<lparr>game_id = 1, game = demo_game, status = Running,
      task = Some \<lparr>phase = Task_awaiting, must_cancel = False\<rparr>,
      error = None, winner = None, winner_reason = None\<rparr>"
  "human_action_futures demo_running 1 = None"
  by (simp_all add: demo_running_def demo_defs step_defs)

lemma demo_finished_eval:
  "records demo_finished 1 = Some \<lparr>game_id = 1, game = demo_game, status = Completed,
      task = Some \<lparr>phase = Task_done None, must_cancel = False\<rparr>,
      error = None, winner = Some 1, winner_reason = Some ''votes''\<rparr>"
  "human_action_futures demo_finished 1 = None"
  "future_objects demo_finished 0 = Fut_cancelled"
  by (simp_all add: demo_finished_def demo_defs step_defs str_int_def digits.simps)

lemma demo_no_human_eval:
  "records demo_no_human 1 = Some \<lparr>game_id = 1, game = blank_game, status = Running,
      task = Some \<lparr>phase = Task_awaiting, must_cancel = False\<rparr>,
      error = None, winner = None, winner_reason = None\<rparr>"
  by (simp_all add: demo_no_human_def demo_defs step_defs)

lemma demo_find_human:
  "find_human_agent demo_game = Some demo_human"
  "find_human_agent blank_game = None"
  "current_available_actions demo_human = Some demo_actions"
  "length demo_actions = 4"
  by (simp_all add: demo_defs find_human_agent_def agents_or_empty_def)

subsection \<open>The order of the checks of a submission\<close>

text \<open>
  C1. \<^verbatim>\<open>submit_human_action\<close> is a function of the state, with no \<^verbatim>\<open>await\<close>. It
  fails with \<^verbatim>\<open>KeyError\<close> on an unknown id; otherwise with "already completed/error"
  on a finished record; otherwise with "no human agent"; otherwise with "not currently
  waiting" when no unresolved future is registered under the id; otherwise with
  \<^verbatim>\<open>ValueError\<close> when the index is outside the actions last offered to the human
  agent; otherwise it resolves the future with the index and the message. For a known,
  unfinished game with a human agent it succeeds exactly when a future is pending and
  the index is in range, and every failure leaves the state as it was.
\<close>

theorem submit_human_action_order:
  "(records s gid = None \<longrightarrow>
      submit_human_action s gid idx t = (Inl (KeyError (''Unknown game_id='' @ str_int gid)), s))
   \<and> (records s gid = Some rec \<and> (status rec = Completed \<or> status rec = Error) \<longrightarrow>
      submit_human_action s gid idx t =
        (Inl (RuntimeError (''Game '' @ str_int gid @ '' is already ''
                            @ status_str (status rec) @ ''.'')), s))
   \<and> (records s gid = Some rec \<and> status rec \<noteq> Completed \<and> status rec \<noteq> Error
        \<and> find_human_agent (game rec) = None \<longrightarrow>
      submit_human_action s gid idx t =
        (Inl (RuntimeError (''Game '' @ str_int gid @ '' has no human agent.'')), s))
   \<and> (records s gid = Some rec \<and> status rec \<noteq> Completed \<and> status rec \<noteq> Error
        \<and> find_human_agent (game rec) = Some h
        \<and> (human_action_futures s gid = None
            \<or> (\<exists>fut. human_action_futures s gid = Some fut \<and> future_objects s fut \<noteq> Fut_pending)) \<longrightarrow>
      submit_human_action s gid idx t =
        (Inl (RuntimeError ''Game is not currently waiting for a human action.''), s))
   \<and> (records s gid = Some rec \<and> status rec \<noteq> Completed \<and> status rec \<noteq> Error
        \<and> find_human_agent (game rec) = Some h
        \<and> human_action_futures s gid = Some fut \<and> future_objects s fut = Fut_pending
        \<and> (idx < 0 \<or> int (length (case current_available_actions h of
                                     None \<Rightarrow> [] | Some xs \<Rightarrow> xs)) \<le> idx) \<longrightarrow>
      submit_human_action s gid idx t =
        (Inl (ValueError (''action_index out of range: '' @ str_int idx)), s))
   \<and> (records s gid = Some rec \<and> status rec \<noteq> Completed \<and> status rec \<noteq> Error
        \<and> find_human_agent (game rec) = Some h
        \<and> human_action_futures s gid = Some fut \<and> future_objects s fut = Fut_pending
        \<and> 0 \<le> idx \<and> idx < int (length (case current_available_actions h of
                                           None \<Rightarrow> [] | Some xs \<Rightarrow> xs)) \<longrightarrow>
      submit_human_action s gid idx t =
        (Inr (), s\<lparr>future_objects := (future_objects s)
                    (fut := Fut_result \<lparr>action_index = idx, message = or_empty t\<rparr>)\<rparr>))
   \<and> (records s gid = Some rec \<and> status rec \<noteq> Completed \<and> status rec \<noteq> Error
        \<and> find_human_agent (game rec) = Some h \<longrightarrow>
      (fst (submit_human_action s gid idx t) = Inr ()
       \<longleftrightarrow> (\<exists>fut. human_action_futures s gid = Some fut \<and> future_objects s fut = Fut_pending)
           \<and> 0 \<le> idx \<and> idx < int (length (case current_available_actions h of
                                               None \<Rightarrow> [] | Some xs \<Rightarrow> xs))))
   \<and> (fst (submit_human_action s gid idx t) \<noteq> Inr () \<longrightarrow>
        snd (submit_human_action s gid idx t) = s)"
  by (cases "records s gid")
     (auto simp: submit_human_action_def Let_def split: option.splits future.splits
           elim: future_done.elims)

theorem submit_human_action_order_witness:
  "submit_human_action demo_waiting 2 0 None
     = (Inl (KeyError ''Unknown game_id=2''), demo_waiting)
   \<and> submit_human_action demo_finished 1 0 None
     = (Inl (RuntimeError ''Game 1 is already completed.''), demo_finished)
   \<and> submit_human_action demo_no_human 1 0 None
     = (Inl (RuntimeError ''Game 1 has no human agent.''), demo_no_human)
   \<and> submit_human_action demo_running 1 0 None
     = (Inl (RuntimeError ''Game is not currently waiting for a human action.''), demo_running)
   \<and> submit_human_action demo_waiting 1 99 None
     = (Inl (ValueError ''action_index out of range: 99''), demo_waiting)
   \<and> fst (submit_human_action demo_waiting 1 3 (Some ''hello'')) = Inr ()
   \<and> future_objects (snd (submit_human_action demo_waiting 1 3 (Some ''hello''))) 0
     = Fut_result \<lparr>action_index = 3, message = ''hello''\<rparr>"
  using submit_human_action_order [where s = demo_waiting and gid = 2 and idx = 0 and t = None]
    submit_human_action_order [where s = demo_finished and gid = 1 and idx = 0 and t = None
      and rec = "the (records demo_finished 1)"]
    submit_human_action_order [where s = demo_no_human and gid = 1 and idx = 0 and t = None
      and rec = "the (records demo_no_human 1)"]
    submit_human_action_order [where s = demo_running and gid = 1 and idx = 0 and t = None
      and rec = "the (records demo_running 1)" and h = demo_human]
    submit_human_action_order [where s = demo_waiting and gid = 1 and idx = 99 and t = None
      and rec = "the (records demo_waiting 1)" and h = demo_human and fut = 0]
    submit_human_action_order [where s = demo_waiting and gid = 1 and idx = 3
      and t = "Some ''hello''" and rec = "the (records demo_waiting 1)" and h = demo_human
      and fut = 0]
  by (simp add: demo_waiting_eval demo_finished_eval demo_no_human_eval demo_running_eval
        demo_find_human str_int_def digits.simps or_empty_def)

lemma demo_submitted_eval:
  "records demo_submitted 1 = records demo_waiting 1"
  "human_action_futures demo_submitted 1 = Some 0"
  "future_objects demo_submitted 0 = Fut_result \<lparr>action_index = 3, message = ''hello''\<rparr>"
  "demo_submitted = snd (submit_human_action demo_waiting 1 3 (Some ''hello''))"
  by (simp_all add: demo_submitted_def demo_waiting_def demo_defs step_defs submit_human_action_def or_empty_def)

subsection \<open>A second submission\<close>

text \<open>
  C5 as stated does not hold. The submission path has one guard for "no future under the id" and "the future is
  done" (line 289), so a second submission meets the error of a game that is not waiting.
  In the concrete session the first submission is accepted, the second is rejected, and
  its error is the one raised for the session that never registered a future.
\<close>

theorem second_submit_counterexample:
  "fst (submit_human_action demo_waiting 1 3 (Some ''hello'')) = Inr ()
   \<and> fst (submit_human_action (snd (submit_human_action demo_waiting 1 3 (Some ''hello'')))
            1 3 (Some ''hello''))
     = Inl (RuntimeError ''Game is not currently waiting for a human action.'')
   \<and> human_action_futures demo_running 1 = None
   \<and> fst (submit_human_action demo_running 1 3 (Some ''hello''))
     = Inl (RuntimeError ''Game is not currently waiting for a human action.'')"
  unfolding demo_submitted_eval(4) [symmetric]
  by (simp add: submit_human_action_def demo_waiting_eval demo_running_eval demo_submitted_eval(1,2,3)
        demo_find_human)

subsection \<open>The payload of an accepted submission\<close>

lemma find_map:
  "(\<And>x. P (f x) = P x) \<Longrightarrow> List.find P (map f xs) = map_option f (List.find P xs)"
  by (induction xs) auto

lemma find_human_with_flags:
  "find_human_agent ((g :: AmongUs)\<lparr>agents := map_option (map (with_flags fl)) (agents g)\<rparr>)
     = map_option (with_flags fl) (find_human_agent g)"
proof (cases "agents g")
  case None
  then show ?thesis by (simp add: find_human_agent_def agents_or_empty_def)
next
  case (Some xs)
  have "List.find is_HumanAgent (map (with_flags fl) xs)
          = map_option (with_flags fl) (List.find is_HumanAgent xs)"
    by (rule find_map) (simp add: with_flags_def)
  with Some show ?thesis by (simp add: find_human_agent_def agents_or_empty_def)
qed

lemma with_flags_length:
  "length (case current_available_actions (with_flags fl h) of None \<Rightarrow> [] | Some xs \<Rightarrow> xs)
     = length (case current_available_actions h of None \<Rightarrow> [] | Some xs \<Rightarrow> xs)"
  by (cases "current_available_actions h") (simp_all add: with_flags_def)

lemma submit_reflag:
  "fst (submit_human_action (reflag fl s) gid idx t) = fst (submit_human_action s gid idx t)"
proof (cases "records s gid")
  case None
  then show ?thesis by (simp add: submit_human_action_def reflag_def)
next
  case (Some rec)
  show ?thesis
  proof (cases "find_human_agent (game rec)")
    case None
    with Some show ?thesis
      by (simp add: submit_human_action_def reflag_def find_human_with_flags)
  next
    case h: (Some h)
    with Some with_flags_length [of fl h] show ?thesis
      by (auto simp: submit_human_action_def reflag_def find_human_with_flags Let_def
               split: option.splits)
  qed
qed

text \<open>
  C10. An accepted submission resolves the future registered under the id with the
  index and with the speech text, the empty string when the text is \<^verbatim>\<open>None\<close>. The
  same submission is accepted with every other speech text, and with every other setting
  of the \<^verbatim>\<open>requires_message\<close> flags of the offered actions: nothing is checked against
  the flag of the chosen action.
\<close>

theorem submit_payload:
  "fst (submit_human_action s gid idx t) = Inr () \<Longrightarrow>
     (\<exists>fut. human_action_futures s gid = Some fut
        \<and> future_objects (snd (submit_human_action s gid idx t)) fut
            = Fut_result \<lparr>action_index = idx,
                           message = (case t of None \<Rightarrow> [] | Some x \<Rightarrow> x)\<rparr>)
     \<and> fst (submit_human_action s gid idx t') = Inr ()
     \<and> fst (submit_human_action (reflag fl s) gid idx t') = Inr ()"
proof -
  assume a: "fst (submit_human_action s gid idx t) = Inr ()"
  then have b: "fst (submit_human_action s gid idx t') = Inr ()"
    by (auto simp: submit_human_action_def Let_def split: option.splits if_splits)
  from a have "\<exists>fut. human_action_futures s gid = Some fut
        \<and> future_objects (snd (submit_human_action s gid idx t)) fut
            = Fut_result \<lparr>action_index = idx,
                           message = (case t of None \<Rightarrow> [] | Some x \<Rightarrow> x)\<rparr>"
    by (auto simp: submit_human_action_def Let_def or_empty_def split: option.splits if_splits)
  with b submit_reflag [of fl s gid idx t'] show ?thesis by simp
qed

theorem submit_payload_witness:
  "requires_message (demo_actions ! 1) = Some True
   \<and> requires_message (demo_actions ! 3) \<noteq> Some True
   \<and> fst (submit_human_action demo_waiting 1 1 None) = Inr ()
   \<and> future_objects (snd (submit_human_action demo_waiting 1 1 None)) 0
       = Fut_result \<lparr>action_index = 1, message = []\<rparr>
   \<and> fst (submit_human_action demo_waiting 1 1 (Some ''hi'')) = Inr ()
   \<and> fst (submit_human_action (reflag (\<lambda>_. Some False) demo_waiting) 1 1 None) = Inr ()
   \<and> fst (submit_human_action demo_waiting 1 3 None) = Inr ()
   \<and> fst (submit_human_action (reflag (\<lambda>_. Some True) demo_waiting) 1 3 None) = Inr ()"
proof -
  have ok: "fst (submit_human_action demo_waiting 1 1 None) = Inr ()"
    by (simp add: submit_human_action_def demo_waiting_eval demo_find_human)
  have ok3: "fst (submit_human_action demo_waiting 1 3 None) = Inr ()"
    by (simp add: submit_human_action_def demo_waiting_eval demo_find_human)
  from submit_payload [OF ok, where t' = "Some ''hi''" and fl = "\<lambda>_. Some False"]
    submit_payload [OF ok, where t' = None and fl = "\<lambda>_. Some False"]
    submit_payload [OF ok3, where t' = None and fl = "\<lambda>_. Some True"]
  show ?thesis
    by (simp add: ok ok3 demo_waiting_eval demo_actions_def)
qed

lemma demo_starting_eval:
  "records demo_starting 1 = Some \<lparr>game_id = 1, game = blank_game, status = Running,
      task = Some \<lparr>phase = Task_awaiting, must_cancel = False\<rparr>,
      error = None, winner = None, winner_reason = None\<rparr>"
  "calls demo_starting 0 = In_gate 1 10000"
  "human_action_futures demo_starting 1 = None"
  by (simp_all add: demo_starting_def demo_begin_def demo_defs step_defs)

lemma demo_early_end_eval:
  "records demo_early_end 1 = Some \<lparr>game_id = 1, game = blank_game, status = Completed,
      task = Some \<lparr>phase = Task_done None, must_cancel = False\<rparr>,
      error = None, winner = None, winner_reason = None\<rparr>"
  "calls demo_early_end 0 = In_gate 1 10000"
  by (simp_all add: demo_early_end_def demo_begin_def demo_defs step_defs)

subsection \<open>The snapshot and the reads that fail\<close>

lemma demo_broken_eval:
  "records demo_broken 1 = Some \<lparr>game_id = 1, game = demo_broken_game, status = Running,
      task = Some \<lparr>phase = Task_awaiting, must_cancel = False\<rparr>,
      error = None, winner = None, winner_reason = None\<rparr>"
  by (simp add: demo_broken_def demo_defs step_defs)

lemma demo_bot_turn_eval:
  "records demo_bot_turn 1 = Some \<lparr>game_id = 1, game = demo_bot_turn_game, status = Running,
      task = Some \<lparr>phase = Task_awaiting, must_cancel = False\<rparr>,
      error = None, winner = None, winner_reason = None\<rparr>"
  by (simp add: demo_bot_turn_def demo_defs step_defs)

lemmas view_defs = get_state_def turn_view_def human_player_name_def find_current_agent_def
  find_human_agent_def agents_or_empty_def serialize_player_positions_def
  serialize_meeting_messages_def offered_actions_def

text \<open>
  C9. Only \<^verbatim>\<open>all_info_prompt()\<close> is called inside a \<^verbatim>\<open>try\<close> (lines 248 to 251).
  At the human's turn \<^verbatim>\<open>get_state\<close> calls \<^verbatim>\<open>get_current_state_for_web()\<close>
  unguarded (line 234). In the session at the human's turn whose human agent cannot give
  its state, the id is in the registry and the exception of that read is the result of
  \<^verbatim>\<open>get_state\<close>; in the session at the turn of the other agent, whose prompt cannot be
  read, the sibling branch swallows the exception and the snapshot has no
  \<^verbatim>\<open>player_info\<close>.
\<close>

theorem get_state_propagates:
  "records demo_broken 1 \<noteq> None
   \<and> get_state demo_broken 1 = Inl (Other_exception ''state unavailable'')
   \<and> all_info_prompt demo_bot_player = Inl (Other_exception ''no prompt'')
   \<and> (\<exists>snap. get_state demo_bot_turn 1 = Inr snap \<and> snap_status snap = Running
         \<and> snap_player_info snap = None)"
  by (simp add: demo_broken_eval demo_bot_turn_eval view_defs demo_broken_game_def
        demo_broken_human_def demo_bot_turn_game_def
        demo_game_def demo_human_def demo_bot_def demo_player_def demo_bot_player_def)

subsection \<open>The invariants hold in every reachable state\<close>

lemma submit_frame:
  "records (snd (submit_human_action s g i t)) = records s"
  "calls (snd (submit_human_action s g i t)) = calls s"
  "init_lock (snd (submit_human_action s g i t)) = init_lock s"
  "allocated (snd (submit_human_action s g i t)) = allocated s"
  "entered (snd (submit_human_action s g i t)) = entered s"
  "next_game_id (snd (submit_human_action s g i t)) = next_game_id s"
  "human_action_futures (snd (submit_human_action s g i t)) = human_action_futures s"
  by (auto simp: submit_human_action_def Let_def split: option.splits)

lemma cleanup_frame:
  "records (cleanup_future s g) = records s"
  "calls (cleanup_future s g) = calls s"
  "init_lock (cleanup_future s g) = init_lock s"
  "allocated (cleanup_future s g) = allocated s"
  "entered (cleanup_future s g) = entered s"
  "next_game_id (cleanup_future s g) = next_game_id s"
  "human_action_futures (cleanup_future s g) = (human_action_futures s)(g := None)"
  by (auto simp: cleanup_future_def Let_def split: option.splits)

lemma put_record_frame:
  "records (put_record s g r) = (records s)(g \<mapsto> r)"
  "calls (put_record s g r) = calls s"
  "init_lock (put_record s g r) = init_lock s"
  "allocated (put_record s g r) = allocated s"
  "entered (put_record s g r) = entered s"
  "next_game_id (put_record s g r) = next_game_id s"
  "human_action_futures (put_record s g r) = human_action_futures s"
  "future_objects (put_record s g r) = future_objects s"
  by (simp_all add: put_record_def)

lemma set_task_phase_control: "same_control s (set_task_phase s g ph)"
  by (auto simp: same_control_def set_task_phase_def put_record_frame split: option.splits)

lemma same_control_trans: "same_control s s' \<Longrightarrow> same_control s' s'' \<Longrightarrow> same_control s s''"
  by (auto simp: same_control_def)

lemma same_control_refl: "same_control s s"
  by (simp add: same_control_def)

lemma cleanup_control: "same_control s (cleanup_future s g)"
  by (simp add: same_control_def cleanup_frame)

lemma put_existing_control: "records s g = Some r \<Longrightarrow> same_control s (put_record s g r')"
  by (auto simp: same_control_def put_record_frame)

lemma task_start_control: "same_control s (task_start s g)"
  by (auto simp: task_start_def run_game_begin_def split: option.splits
      intro!: same_control_refl set_task_phase_control
      intro: same_control_trans [OF put_existing_control set_task_phase_control])

lemma run_game_resume_control: "same_control s (snd (run_game_resume s g out))"
  by (auto simp: run_game_resume_def Let_def split: option.splits outcome.splits
      intro!: cleanup_control
      intro: same_control_trans [OF put_existing_control cleanup_control])

lemma task_finish_control: "same_control s (task_finish s g out)"
  using run_game_resume_control [of s g out]
  by (auto simp: task_finish_def split: option.splits prod.splits
      intro!: same_control_refl intro: same_control_trans [OF _ set_task_phase_control])

lemma gate_passed_control: "same_control s (gate_passed s g)"
  by (auto simp: gate_passed_def split: option.splits
      intro!: same_control_refl put_existing_control)

lemma gate_failed_control: "same_control s (gate_failed s g e)"
  by (auto simp: gate_failed_def split: option.splits
      intro!: same_control_refl put_existing_control)

lemma human_waits_control: "same_control s (human_waits s g)"
  by (auto simp: human_waits_def same_control_def split: option.splits)

lemma human_resumes_control: "same_control s (human_resumes s g)"
  by (auto simp: human_resumes_def same_control_def split: option.splits)

lemma engine_control:
  "same_control s (case records s g of None \<Rightarrow> s | Some rec \<Rightarrow> put_record s g (rec\<lparr>game := gm\<rparr>))"
  by (auto split: option.splits intro!: same_control_refl put_existing_control)

lemma submit_control: "same_control s (snd (submit_human_action s g i t))"
  by (simp add: same_control_def submit_frame)

lemma same_control_lock: "same_control s s' \<Longrightarrow> inv_lock s \<Longrightarrow> inv_lock s'"
  by (simp add: same_control_def inv_lock_def)

lemma same_control_ids: "same_control s s' \<Longrightarrow> inv_ids s \<Longrightarrow> inv_ids s'"
  by (simp add: same_control_def inv_ids_def)

lemma same_control_entered: "same_control s s' \<Longrightarrow> inv_entered s \<Longrightarrow> inv_entered s'"
  by (simp add: same_control_def inv_entered_def)

lemma other_event_control: "\<not> control_event e \<Longrightarrow> same_control s (step e s)"
  by (cases e)
     (simp_all add: control_event_def task_start_control task_finish_control engine_control
        human_waits_control human_resumes_control submit_control)

lemma poll_shape:
  assumes "calls s c = In_gate g d"
  shows "step (Poll c now) s = s
       \<or> (\<exists>s1 pc. same_control s s1 \<and> step (Poll c now) s = release (set_pc s1 c pc)
             \<and> (pc = Returned g \<or> (\<exists>e. pc = Raised e)))"
proof (cases "gate_iteration s g d now")
  case Gate_return
  then show ?thesis using assms gate_passed_control [of s g] by auto
next
  case (Gate_raise e)
  then show ?thesis using assms gate_failed_control [of s g e] same_control_refl [of s]
    by (cases "is_Exception e") auto
next
  case Gate_sleep
  then show ?thesis using assms by simp
qed

lemma construct_shape:
  assumes "calls s c = L121 g"
  shows "step (Construct c res now) s = release (set_pc s c (Raised (projl res))) \<and> isl res
       \<or> (\<exists>gm d. step (Construct c res now) s = set_pc (put_record s g (new_record g gm)) c (In_gate g d))"
  using assms by (cases res) auto

lemma inv_lock_step:
  assumes "inv_lock s"
  shows "inv_lock (step e s)"
proof (cases "control_event e")
  case False
  then show ?thesis using assms other_event_control same_control_lock by blast
next
  case True
  show ?thesis
  proof (cases e)
    case (Call c key)
    then show ?thesis using assms by (auto simp: inv_lock_def set_pc_def)
  next
    case (Acquire c)
    then show ?thesis using assms by (auto simp: inv_lock_def set_pc_def)
  next
    case (Read_id c)
    then show ?thesis using assms by (auto simp: inv_lock_def set_pc_def)
  next
    case (Incr_id c)
    then show ?thesis using assms by (auto simp: inv_lock_def set_pc_def split: call_pc.splits)
  next
    case (Construct c res now)
    show ?thesis
    proof (cases "calls s c")
      case (L121 g)
      have "init_lock s = Some c" using assms L121 by (simp add: inv_lock_def)
      from construct_shape [OF L121, of res now] show ?thesis unfolding Construct
        using assms \<open>init_lock s = Some c\<close>
        by (elim disjE exE conjE)
           (auto simp: inv_lock_def set_pc_def release_def put_record_frame)
    qed (use Construct assms in simp_all)
  next
    case (Poll c now)
    show ?thesis
    proof (cases "calls s c")
      case (In_gate g d)
      have "init_lock s = Some c" using assms In_gate by (simp add: inv_lock_def)
      from poll_shape [OF In_gate, of now] show ?thesis unfolding Poll
        using assms \<open>init_lock s = Some c\<close>
        by (elim disjE exE conjE)
           (auto simp: inv_lock_def set_pc_def release_def same_control_def)
    qed (use Poll assms in simp_all)
  qed (use True in \<open>simp_all add: control_event_def\<close>)
qed

lemma inv_lock_only:
  "inv_lock s \<Longrightarrow> in_critical (calls s c) \<Longrightarrow> in_critical (calls s c') \<Longrightarrow> c' = c"
  unfolding inv_lock_def by (metis option.inject)

lemma inv_lock_others:
  assumes "inv_lock s" "in_critical (calls s c)" "c' \<noteq> c"
  shows "calls s c' \<noteq> L118" "calls s c' \<noteq> L119 g" "calls s c' \<noteq> L121 g"
    "calls s c' \<noteq> In_gate g d"
  using inv_lock_only [OF assms(1,2), of c'] assms(3) by auto

lemma inv_ids_sorted: "inv_ids s \<Longrightarrow> sorted_wrt (<) (map snd (allocated s))"
  by (simp add: inv_ids_def)

lemma inv_ids_alloc:
  "inv_ids s \<Longrightarrow> (c, g) \<in> set (allocated s) \<Longrightarrow>
     g < next_game_id s \<or> (calls s c = L119 g \<and> g = next_game_id s)"
  unfolding inv_ids_def by blast

lemma inv_ids_holds:
  "inv_ids s \<Longrightarrow> holds_id (calls s c) = Some g \<Longrightarrow> (c, g) \<in> set (allocated s)"
  unfolding inv_ids_def by blast

lemma inv_ids_records: "inv_ids s \<Longrightarrow> records s g = Some r \<Longrightarrow> g < next_game_id s"
  unfolding inv_ids_def by blast

lemma inv_ids_fresh:
  "inv_ids s \<Longrightarrow> calls s c = L119 g \<or> calls s c = L121 g \<Longrightarrow> records s g = None"
  unfolding inv_ids_def by blast

lemma same_control_fields:
  assumes "same_control s s1"
  shows "calls s1 = calls s" "init_lock s1 = init_lock s" "allocated s1 = allocated s"
    "entered s1 = entered s" "next_game_id s1 = next_game_id s"
  using assms by (simp_all add: same_control_def)

lemma same_control_dom: "same_control s s1 \<Longrightarrow> records s1 g \<noteq> None \<Longrightarrow> records s g \<noteq> None"
  unfolding same_control_def by metis

lemma inv_ids_update:
  assumes I: "inv_ids s" and L: "inv_lock s"
    and c: "calls s' = (calls s)(c := pc)"
    and a: "allocated s' = allocated s"
    and n: "next_game_id s' = next_game_id s"
    and r: "\<And>g. records s' g \<noteq> None \<Longrightarrow> records s g \<noteq> None \<or> calls s c = L121 g"
    and h: "holds_id pc = None \<or> holds_id pc = holds_id (calls s c)"
    and pc: "\<And>g. pc \<noteq> L119 g \<and> pc \<noteq> L121 g"
    and old: "\<And>g. calls s c \<noteq> L119 g"
  shows "inv_ids s'"
  unfolding inv_ids_def
proof (intro conjI allI impI)
  show "sorted_wrt (<) (map snd (allocated s'))"
    using inv_ids_sorted [OF I] a by simp
next
  fix c' g assume "(c', g) \<in> set (allocated s')"
  then have m: "(c', g) \<in> set (allocated s)" using a by simp
  show "g < next_game_id s' \<or> calls s' c' = L119 g \<and> g = next_game_id s'"
    using inv_ids_alloc [OF I m] old [of g] c n by (cases "c' = c") auto
next
  fix c' g assume "holds_id (calls s' c') = Some g"
  then have "holds_id (calls s c') = Some g" using c h by (cases "c' = c") auto
  then show "(c', g) \<in> set (allocated s')" using inv_ids_holds [OF I] a by simp
next
  fix g assume "records s' g \<noteq> None"
  then consider "records s g \<noteq> None" | "calls s c = L121 g" using r by blast
  then show "g < next_game_id s'"
  proof cases
    case 1
    then show ?thesis using inv_ids_records [OF I, of g] n by auto
  next
    case 2
    then have "(c, g) \<in> set (allocated s)" using inv_ids_holds [OF I, of c g] by simp
    then show ?thesis using inv_ids_alloc [OF I, of c g] 2 n by simp
  qed
next
  fix c' g assume A: "calls s' c' = L119 g \<or> calls s' c' = L121 g"
  then have ne: "c' \<noteq> c" using c pc [of g] by auto
  then have B: "calls s c' = L119 g \<or> calls s c' = L121 g" using A c by simp
  then have "records s g = None" using inv_ids_fresh [OF I] by blast
  moreover have "calls s c \<noteq> L121 g" using L B ne
    by (metis in_critical.simps(2,3) inv_lock_only)
  ultimately show "records s' g = None" using r [of g] by blast
qed

lemma inv_ids_step:
  assumes I: "inv_ids s" and L: "inv_lock s"
  shows "inv_ids (step e s)"
proof (cases "control_event e")
  case False
  then show ?thesis using I other_event_control same_control_ids by blast
next
  case True
  show ?thesis
  proof (cases e)
    case (Call c key)
    show ?thesis
    proof (cases "calls s c = Not_called")
      case True
      show ?thesis unfolding Call
        by (rule inv_ids_update [OF I L, where c = c
              and pc = "if key = None \<or> key = Some [] then Raised (RuntimeError ''OPENROUTER_API_KEY is required.'') else At_lock"])
           (use True in \<open>auto simp: set_pc_def split: if_splits\<close>)
    qed (use Call I in simp)
  next
    case (Acquire c)
    show ?thesis
    proof (cases "calls s c = At_lock \<and> init_lock s = None")
      case True
      show ?thesis unfolding Acquire
        by (rule inv_ids_update [OF I L, where c = c and pc = L118])
           (use True in \<open>auto simp: set_pc_def\<close>)
    qed (use Acquire I in auto)
  next
    case (Read_id c)
    show ?thesis
    proof (cases "calls s c = L118")
      case False
      then show ?thesis using I Read_id by simp
    next
      case True
      have only: "\<And>c'. in_critical (calls s c') \<Longrightarrow> c' = c"
        using inv_lock_only [OF L, of c] True by simp
      have below: "\<And>c' g. (c', g) \<in> set (allocated s) \<Longrightarrow> g < next_game_id s"
      proof -
        fix c' g assume "(c', g) \<in> set (allocated s)"
        then have "g < next_game_id s \<or> calls s c' = L119 g"
          using inv_ids_alloc [OF I] by blast
        moreover have "calls s c' \<noteq> L119 g" using only [of c'] True by auto
        ultimately show "g < next_game_id s" by simp
      qed
      have fresh: "records s (next_game_id s) = None"
        using inv_ids_records [OF I, of "next_game_id s"] by fastforce
      have s1: "sorted_wrt (<) (map snd (allocated s @ [(c, next_game_id s)]))"
        using inv_ids_sorted [OF I] below by (auto simp: sorted_wrt_append)
      have others: "\<And>c' g. c' \<noteq> c \<Longrightarrow> calls s c' \<noteq> L119 g \<and> calls s c' \<noteq> L121 g"
        using only by fastforce
      show ?thesis unfolding Read_id inv_ids_def
      proof (intro conjI allI impI)
        show "sorted_wrt (<) (map snd (allocated (step (Read_id c) s)))"
          using s1 True by (simp add: set_pc_def)
      next
        fix c' g assume "(c', g) \<in> set (allocated (step (Read_id c) s))"
        then show "g < next_game_id (step (Read_id c) s) \<or>
            calls (step (Read_id c) s) c' = L119 g \<and> g = next_game_id (step (Read_id c) s)"
          using True below by (auto simp: set_pc_def)
      next
        fix c' g assume "holds_id (calls (step (Read_id c) s) c') = Some g"
        then show "(c', g) \<in> set (allocated (step (Read_id c) s))"
          using True inv_ids_holds [OF I, of c' g] by (auto simp: set_pc_def split: if_splits)
      next
        fix g assume "records (step (Read_id c) s) g \<noteq> None"
        then show "g < next_game_id (step (Read_id c) s)"
          using True inv_ids_records [OF I, of g] by (auto simp: set_pc_def)
      next
        fix c' g
        assume "calls (step (Read_id c) s) c' = L119 g \<or> calls (step (Read_id c) s) c' = L121 g"
        then show "records (step (Read_id c) s) g = None"
          using True fresh others [of c' g] by (auto simp: set_pc_def split: if_splits)
      qed
    qed
  next
    case (Incr_id c)
    show ?thesis
    proof (cases "calls s c")
      case (L119 g)
      have only: "\<And>c'. in_critical (calls s c') \<Longrightarrow> c' = c"
        using inv_lock_only [OF L, of c] L119 by simp
      have others: "\<And>c' g. c' \<noteq> c \<Longrightarrow> calls s c' \<noteq> L119 g \<and> calls s c' \<noteq> L121 g"
        using only by fastforce
      have st: "step (Incr_id c) s = (set_pc s c (L121 g))\<lparr>next_game_id := next_game_id s + 1\<rparr>"
        using L119 by simp
      show ?thesis unfolding Incr_id st inv_ids_def
      proof (intro conjI allI impI)
        show "sorted_wrt (<) (map snd (allocated ((set_pc s c (L121 g))\<lparr>next_game_id := next_game_id s + 1\<rparr>)))"
          using inv_ids_sorted [OF I] by (simp add: set_pc_def)
      next
        fix c' g' assume "(c', g') \<in> set (allocated ((set_pc s c (L121 g))\<lparr>next_game_id := next_game_id s + 1\<rparr>))"
        then have "(c', g') \<in> set (allocated s)" by (simp add: set_pc_def)
        from inv_ids_alloc [OF I this]
        show "g' < next_game_id ((set_pc s c (L121 g))\<lparr>next_game_id := next_game_id s + 1\<rparr>) \<or>
            calls ((set_pc s c (L121 g))\<lparr>next_game_id := next_game_id s + 1\<rparr>) c' = L119 g' \<and>
            g' = next_game_id ((set_pc s c (L121 g))\<lparr>next_game_id := next_game_id s + 1\<rparr>)"
          by (auto simp: set_pc_def)
      next
        fix c' g' assume "holds_id (calls ((set_pc s c (L121 g))\<lparr>next_game_id := next_game_id s + 1\<rparr>) c') = Some g'"
        then have "holds_id (calls s c') = Some g'"
          using L119 by (auto simp: set_pc_def split: if_splits)
        then show "(c', g') \<in> set (allocated ((set_pc s c (L121 g))\<lparr>next_game_id := next_game_id s + 1\<rparr>))"
          using inv_ids_holds [OF I] by (simp add: set_pc_def)
      next
        fix g' assume "records ((set_pc s c (L121 g))\<lparr>next_game_id := next_game_id s + 1\<rparr>) g' \<noteq> None"
        then show "g' < next_game_id ((set_pc s c (L121 g))\<lparr>next_game_id := next_game_id s + 1\<rparr>)"
          using inv_ids_records [OF I, of g'] by (auto simp: set_pc_def)
      next
        fix c' g'
        assume "calls ((set_pc s c (L121 g))\<lparr>next_game_id := next_game_id s + 1\<rparr>) c' = L119 g'
              \<or> calls ((set_pc s c (L121 g))\<lparr>next_game_id := next_game_id s + 1\<rparr>) c' = L121 g'"
        then have "calls s c' = L119 g' \<or> calls s c' = L121 g'"
          using L119 by (auto simp: set_pc_def split: if_splits)
        then show "records ((set_pc s c (L121 g))\<lparr>next_game_id := next_game_id s + 1\<rparr>) g' = None"
          using inv_ids_fresh [OF I] by (simp add: set_pc_def)
      qed
    qed (use Incr_id I in simp_all)
  next
    case (Construct c res now)
    show ?thesis
    proof (cases "calls s c")
      case (L121 g)
      show ?thesis
      proof (cases res)
        case (Inl x)
        show ?thesis unfolding Construct
          by (rule inv_ids_update [OF I L, where c = c and pc = "Raised x"])
             (use L121 Inl in \<open>auto simp: set_pc_def release_def\<close>)
      next
        case (Inr gm)
        show ?thesis unfolding Construct
          by (rule inv_ids_update [OF I L, where c = c and pc = "In_gate g (now + timeout_ms)"])
             (use L121 Inr in \<open>auto simp: set_pc_def put_record_def split: if_splits\<close>)
      qed
    qed (use Construct I in simp_all)
  next
    case (Poll c now)
    show ?thesis
    proof (cases "calls s c")
      case (In_gate g d)
      from poll_shape [OF In_gate, of now]
      consider "step (Poll c now) s = s"
        | s1 pc where "same_control s s1" "step (Poll c now) s = release (set_pc s1 c pc)"
            "pc = Returned g \<or> (\<exists>e. pc = Raised e)"
        by blast
      then show ?thesis unfolding Poll
      proof cases
        case 1
        then show "inv_ids (step (Poll c now) s)" using I by simp
      next
        case (2 s1 pc)
        show "inv_ids (step (Poll c now) s)" unfolding 2(2)
          by (rule inv_ids_update [OF I L, where c = c and pc = pc])
             (use same_control_fields [OF 2(1)] same_control_dom [OF 2(1)] 2(3) In_gate in
               \<open>auto simp: set_pc_def release_def simp del: not_None_eq\<close>)
      qed
    qed (use Poll I in simp_all)
  qed (use True in \<open>simp_all add: control_event_def\<close>)
qed

lemma inv_entered_pending: "inv_entered s \<Longrightarrow> calls s c = L118 \<Longrightarrow> entered s = map fst (allocated s) @ [c]"
  unfolding inv_entered_def by blast

lemma inv_entered_settled: "inv_entered s \<Longrightarrow> (\<And>c. calls s c \<noteq> L118) \<Longrightarrow> entered s = map fst (allocated s)"
  unfolding inv_entered_def by blast

lemma inv_entered_distinct: "inv_entered s \<Longrightarrow> distinct (entered s)"
  unfolding inv_entered_def by blast

lemma inv_entered_called:
  "inv_entered s \<Longrightarrow> c \<in> set (entered s) \<Longrightarrow> calls s c \<noteq> Not_called \<and> calls s c \<noteq> At_lock"
  unfolding inv_entered_def by blast

lemma inv_enteredI:
  assumes "\<And>c. calls s c = L118 \<Longrightarrow> entered s = map fst (allocated s) @ [c]"
    and "\<forall>c. calls s c \<noteq> L118 \<Longrightarrow> entered s = map fst (allocated s)"
    and "distinct (entered s)"
    and "\<And>c. c \<in> set (entered s) \<Longrightarrow> calls s c \<noteq> Not_called \<and> calls s c \<noteq> At_lock"
  shows "inv_entered s"
  unfolding inv_entered_def using assms by blast

lemma inv_entered_update:
  assumes I: "inv_entered s"
    and c: "calls s' = (calls s)(c := pc)"
    and a: "allocated s' = allocated s"
    and e: "entered s' = entered s"
    and pc: "pc \<noteq> L118"
    and old: "calls s c \<noteq> L118"
    and w: "pc = Not_called \<or> pc = At_lock \<Longrightarrow> calls s c = Not_called \<or> calls s c = At_lock"
  shows "inv_entered s'"
proof (rule inv_enteredI)
  fix c' assume "calls s' c' = L118"
  then have "calls s c' = L118" using c pc by (cases "c' = c") auto
  then show "entered s' = map fst (allocated s') @ [c']"
    using inv_entered_pending [OF I] a e by simp
next
  assume "\<forall>c. calls s' c \<noteq> L118"
  then have "\<And>c'. calls s c' \<noteq> L118" using c old by (metis fun_upd_other)
  then show "entered s' = map fst (allocated s')"
    using inv_entered_settled [OF I] a e by simp
next
  show "distinct (entered s')" using inv_entered_distinct [OF I] e by simp
next
  fix c' assume "c' \<in> set (entered s')"
  then have m: "c' \<in> set (entered s)" using e by simp
  show "calls s' c' \<noteq> Not_called \<and> calls s' c' \<noteq> At_lock"
  proof (cases "c' = c")
    case True
    then show ?thesis using inv_entered_called [OF I m] w c by auto
  next
    case False
    then show ?thesis using inv_entered_called [OF I m] c by simp
  qed
qed

lemma inv_entered_step:
  assumes I: "inv_entered s" and L: "inv_lock s"
  shows "inv_entered (step e s)"
proof (cases "control_event e")
  case False
  then show ?thesis using I other_event_control same_control_entered by blast
next
  case True
  show ?thesis
  proof (cases e)
    case (Call c key)
    show ?thesis
    proof (cases "calls s c = Not_called")
      case True
      show ?thesis unfolding Call
        by (rule inv_entered_update [OF I, where c = c
              and pc = "if key = None \<or> key = Some [] then Raised (RuntimeError ''OPENROUTER_API_KEY is required.'') else At_lock"])
           (use True in \<open>auto simp: set_pc_def split: if_splits\<close>)
    qed (use Call I in simp)
  next
    case (Acquire c)
    show ?thesis
    proof (cases "calls s c = At_lock \<and> init_lock s = None")
      case True
      have none: "\<And>c'. calls s c' \<noteq> L118"
      proof
        fix c' assume "calls s c' = L118"
        then have "init_lock s = Some c'" using L by (simp add: inv_lock_def)
        then show False using True by simp
      qed
      have eq: "entered s = map fst (allocated s)" using inv_entered_settled [OF I none] .
      have notin: "c \<notin> set (entered s)" using inv_entered_called [OF I, of c] True by auto
      have st: "step (Acquire c) s = (set_pc s c L118)\<lparr>init_lock := Some c, entered := entered s @ [c]\<rparr>"
        using True by simp
      show ?thesis unfolding Acquire st
      proof (rule inv_enteredI)
        fix c'
        assume "calls ((set_pc s c L118)\<lparr>init_lock := Some c, entered := entered s @ [c]\<rparr>) c' = L118"
        then have "c' = c" using none [of c'] by (auto simp: set_pc_def split: if_splits)
        then show "entered ((set_pc s c L118)\<lparr>init_lock := Some c, entered := entered s @ [c]\<rparr>) =
            map fst (allocated ((set_pc s c L118)\<lparr>init_lock := Some c, entered := entered s @ [c]\<rparr>)) @ [c']"
          using eq by (simp add: set_pc_def)
      next
        assume "\<forall>ca. calls ((set_pc s c L118)\<lparr>init_lock := Some c, entered := entered s @ [c]\<rparr>) ca \<noteq> L118"
        then have False by (auto simp: set_pc_def dest: spec [of _ c])
        then show "entered ((set_pc s c L118)\<lparr>init_lock := Some c, entered := entered s @ [c]\<rparr>) =
            map fst (allocated ((set_pc s c L118)\<lparr>init_lock := Some c, entered := entered s @ [c]\<rparr>))" ..
      next
        show "distinct (entered ((set_pc s c L118)\<lparr>init_lock := Some c, entered := entered s @ [c]\<rparr>))"
          using inv_entered_distinct [OF I] notin by simp
      next
        fix c'
        assume "c' \<in> set (entered ((set_pc s c L118)\<lparr>init_lock := Some c, entered := entered s @ [c]\<rparr>))"
        then show "calls ((set_pc s c L118)\<lparr>init_lock := Some c, entered := entered s @ [c]\<rparr>) c' \<noteq> Not_called
            \<and> calls ((set_pc s c L118)\<lparr>init_lock := Some c, entered := entered s @ [c]\<rparr>) c' \<noteq> At_lock"
          using inv_entered_called [OF I, of c'] by (auto simp: set_pc_def)
      qed
    qed (use Acquire I in auto)
  next
    case (Read_id c)
    show ?thesis
    proof (cases "calls s c = L118")
      case False
      then show ?thesis using I Read_id by simp
    next
      case True
      have others: "\<And>c'. c' \<noteq> c \<Longrightarrow> calls s c' \<noteq> L118"
        using inv_lock_others(1) [OF L, of c] True by simp
      have eq: "entered s = map fst (allocated s) @ [c]" using inv_entered_pending [OF I True] .
      have st: "step (Read_id c) s = (set_pc s c (L119 (next_game_id s)))
             \<lparr>allocated := allocated s @ [(c, next_game_id s)]\<rparr>"
        using True by simp
      show ?thesis unfolding Read_id st
      proof (rule inv_enteredI)
        fix c'
        assume "calls ((set_pc s c (L119 (next_game_id s)))\<lparr>allocated := allocated s @ [(c, next_game_id s)]\<rparr>) c' = L118"
        then have False using others [of c'] by (auto simp: set_pc_def split: if_splits)
        then show "entered ((set_pc s c (L119 (next_game_id s)))\<lparr>allocated := allocated s @ [(c, next_game_id s)]\<rparr>) =
            map fst (allocated ((set_pc s c (L119 (next_game_id s)))\<lparr>allocated := allocated s @ [(c, next_game_id s)]\<rparr>)) @ [c']" ..
      next
        show "entered ((set_pc s c (L119 (next_game_id s)))\<lparr>allocated := allocated s @ [(c, next_game_id s)]\<rparr>) =
            map fst (allocated ((set_pc s c (L119 (next_game_id s)))\<lparr>allocated := allocated s @ [(c, next_game_id s)]\<rparr>))"
          using eq by (simp add: set_pc_def)
      next
        show "distinct (entered ((set_pc s c (L119 (next_game_id s)))\<lparr>allocated := allocated s @ [(c, next_game_id s)]\<rparr>))"
          using inv_entered_distinct [OF I] by (simp add: set_pc_def)
      next
        fix c'
        assume "c' \<in> set (entered ((set_pc s c (L119 (next_game_id s)))\<lparr>allocated := allocated s @ [(c, next_game_id s)]\<rparr>))"
        then show "calls ((set_pc s c (L119 (next_game_id s)))\<lparr>allocated := allocated s @ [(c, next_game_id s)]\<rparr>) c' \<noteq> Not_called
            \<and> calls ((set_pc s c (L119 (next_game_id s)))\<lparr>allocated := allocated s @ [(c, next_game_id s)]\<rparr>) c' \<noteq> At_lock"
          using inv_entered_called [OF I, of c'] by (auto simp: set_pc_def)
      qed
    qed
  next
    case (Incr_id c)
    show ?thesis
    proof (cases "calls s c")
      case (L119 g)
      show ?thesis unfolding Incr_id
        by (rule inv_entered_update [OF I, where c = c and pc = "L121 g"])
           (use L119 in \<open>auto simp: set_pc_def\<close>)
    qed (use Incr_id I in simp_all)
  next
    case (Construct c res now)
    show ?thesis
    proof (cases "calls s c")
      case (L121 g)
      show ?thesis
      proof (cases res)
        case (Inl x)
        show ?thesis unfolding Construct
          by (rule inv_entered_update [OF I, where c = c and pc = "Raised x"])
             (use L121 Inl in \<open>auto simp: set_pc_def release_def\<close>)
      next
        case (Inr gm)
        show ?thesis unfolding Construct
          by (rule inv_entered_update [OF I, where c = c and pc = "In_gate g (now + timeout_ms)"])
             (use L121 Inr in \<open>auto simp: set_pc_def put_record_def\<close>)
      qed
    qed (use Construct I in simp_all)
  next
    case (Poll c now)
    show ?thesis
    proof (cases "calls s c")
      case (In_gate g d)
      from poll_shape [OF In_gate, of now]
      consider "step (Poll c now) s = s"
        | s1 pc where "same_control s s1" "step (Poll c now) s = release (set_pc s1 c pc)"
            "pc = Returned g \<or> (\<exists>e. pc = Raised e)"
        by blast
      then show ?thesis unfolding Poll
      proof cases
        case 1
        then show "inv_entered (step (Poll c now) s)" using I by simp
      next
        case (2 s1 pc)
        show "inv_entered (step (Poll c now) s)" unfolding 2(2)
          by (rule inv_entered_update [OF I, where c = c and pc = pc])
             (use same_control_fields [OF 2(1)] 2(3) In_gate in
               \<open>auto simp: set_pc_def release_def\<close>)
      qed
    qed (use Poll I in simp_all)
  qed (use True in \<open>simp_all add: control_event_def\<close>)
qed

lemma is_Exception_iff: "is_Exception e \<longleftrightarrow> e \<noteq> CancelledError"
  by (cases e) simp_all

lemma task_finish_effect:
  assumes "records s gid = Some rec" "task rec = Some t"
    "phase t = Task_awaiting" "engine_outcome t out"
  shows "task_finish s gid out =
     s\<lparr>records := (records s)(gid \<mapsto> finished_record gid rec t out),
       human_action_futures := (human_action_futures s)(gid := None),
       future_objects := cancelled_futures s gid\<rparr>"
proof (cases out)
  case Returns
  then show ?thesis using assms
    by (simp add: task_finish_def run_game_resume_def Let_def cleanup_future_def put_record_def
          set_task_phase_def ended_phase_def finished_record_def cancelled_futures_def
          split: option.splits)
next
  case (Raises exc)
  then show ?thesis using assms
    by (simp add: task_finish_def run_game_resume_def Let_def cleanup_future_def put_record_def
          set_task_phase_def ended_phase_def finished_record_def cancelled_futures_def
          is_Exception_iff split: option.splits)
qed

lemma task_finish_idle:
  assumes "records s gid = None \<or> (\<exists>rec. records s gid = Some rec \<and>
      (task rec = None \<or> (\<exists>t. task rec = Some t \<and> \<not> (phase t = Task_awaiting \<and> engine_outcome t out))))"
  shows "task_finish s gid out = s"
  using assms by (auto simp: task_finish_def split: option.splits)

lemma task_start_effect:
  assumes "records s gid = Some rec" "task rec = Some t" "phase t = Task_unstarted"
  shows "task_start s gid = s\<lparr>records := (records s)(gid \<mapsto> started_record rec t)\<rparr>"
  using assms
  by (simp add: task_start_def run_game_begin_def put_record_def set_task_phase_def
        started_record_def)

lemma task_start_idle:
  assumes "records s gid = None \<or> (\<exists>rec. records s gid = Some rec \<and>
      (task rec = None \<or> (\<exists>t. task rec = Some t \<and> phase t \<noteq> Task_unstarted)))"
  shows "task_start s gid = s"
  using assms by (auto simp: task_start_def split: option.splits)

lemma inv_taskD: "inv_task s \<Longrightarrow> records s g = Some rec \<Longrightarrow> record_ok rec"
  unfolding inv_task_def by blast

lemma inv_task_put:
  "inv_task s \<Longrightarrow> record_ok r \<Longrightarrow> records s' = (records s)(g \<mapsto> r) \<Longrightarrow> inv_task s'"
  unfolding inv_task_def by (metis fun_upd_apply option.inject)

lemma inv_task_same: "inv_task s \<Longrightarrow> records s' = records s \<Longrightarrow> inv_task s'"
  unfolding inv_task_def by simp

lemma record_ok_task: "record_ok rec \<Longrightarrow> \<exists>t. task rec = Some t"
  by (cases "task rec") (simp_all add: record_ok_def)

lemma record_ok_new: "record_ok (new_record g gm)"
  by (simp add: record_ok_def new_record_def task_done_def)

lemma record_ok_game: "record_ok rec \<Longrightarrow> record_ok (rec\<lparr>game := gm\<rparr>)"
  by (simp add: record_ok_def split: option.splits)

lemma record_ok_running: "record_ok rec \<Longrightarrow> record_ok (rec\<lparr>status := Running\<rparr>)"
  by (simp add: record_ok_def split: option.splits)

lemma record_ok_failed:
  "record_ok rec \<Longrightarrow>
     record_ok (rec\<lparr>status := Error, error := e, task := map_option task_cancel (task rec)\<rparr>)"
  by (auto simp: record_ok_def task_cancel_def task_done_def split: option.splits)

lemma record_ok_started:
  "record_ok rec \<Longrightarrow> task rec = Some t \<Longrightarrow> phase t = Task_unstarted \<Longrightarrow>
     record_ok (started_record rec t)"
  by (auto simp: record_ok_def started_record_def task_done_def)

lemma record_ok_finished:
  "record_ok rec \<Longrightarrow> task rec = Some t \<Longrightarrow> record_ok (finished_record gid rec t out)"
  by (cases out) (auto simp: record_ok_def finished_record_def task_done_def)

lemma gate_passed_records:
  "records (gate_passed s g) = records s
   \<or> (\<exists>rec. records s g = Some rec \<and> status rec \<noteq> Completed \<and> status rec \<noteq> Error
         \<and> records (gate_passed s g) = (records s)(g \<mapsto> rec\<lparr>status := Running\<rparr>))"
  by (auto simp: gate_passed_def put_record_def split: option.splits)

lemma gate_failed_records:
  "(records s g = None \<and> gate_failed s g e = s)
   \<or> (\<exists>rec. records s g = Some rec
         \<and> records (gate_failed s g e) = (records s)(g \<mapsto>
              rec\<lparr>status := Error, error := Some (str_exn e),
                  task := map_option task_cancel (task rec)\<rparr>))"
  by (auto simp: gate_failed_def put_record_def split: option.splits)

lemma inv_task_gate_passed: "inv_task s \<Longrightarrow> inv_task (gate_passed s g)"
  using gate_passed_records [of s g]
  by (elim disjE exE conjE)
     (auto intro: inv_task_same inv_task_put record_ok_running dest: inv_taskD)

lemma inv_task_gate_failed: "inv_task s \<Longrightarrow> inv_task (gate_failed s g e)"
  using gate_failed_records [of s g e]
  by (elim disjE exE conjE)
     (auto intro: inv_task_put record_ok_failed dest: inv_taskD)

lemma inv_task_control:
  "inv_task s1 \<Longrightarrow> inv_task (release (set_pc s1 c pc))"
  by (rule inv_task_same) (simp_all add: release_def set_pc_def)

lemma inv_task_start: "inv_task s \<Longrightarrow> inv_task (task_start s g)"
proof -
  assume I: "inv_task s"
  show ?thesis
  proof (cases "records s g")
    case None
    then show ?thesis using I task_start_idle [of s g] by simp
  next
    case (Some rec)
    then obtain t where t: "task rec = Some t"
      using record_ok_task inv_taskD [OF I Some] by blast
    show ?thesis
    proof (cases "phase t = Task_unstarted")
      case True
      show ?thesis unfolding task_start_effect [OF Some t True]
        by (rule inv_task_put [OF I record_ok_started [OF inv_taskD [OF I Some] t True]]) simp
    next
      case False
      then show ?thesis using I task_start_idle [of s g] Some t by simp
    qed
  qed
qed

lemma inv_task_finish: "inv_task s \<Longrightarrow> inv_task (task_finish s g out)"
proof -
  assume I: "inv_task s"
  show ?thesis
  proof (cases "records s g")
    case None
    then show ?thesis using I task_finish_idle [of s g out] by simp
  next
    case (Some rec)
    then obtain t where t: "task rec = Some t"
      using record_ok_task inv_taskD [OF I Some] by blast
    show ?thesis
    proof (cases "phase t = Task_awaiting \<and> engine_outcome t out")
      case True
      then have a: "phase t = Task_awaiting" and b: "engine_outcome t out" by simp_all
      show ?thesis unfolding task_finish_effect [OF Some t a b]
        by (rule inv_task_put [OF I record_ok_finished [OF inv_taskD [OF I Some] t]]) simp
    next
      case False
      then show ?thesis using I task_finish_idle [of s g out] Some t by simp
    qed
  qed
qed

lemma inv_task_step:
  assumes I: "inv_task s"
  shows "inv_task (step e s)"
proof (cases e)
  case (Call c key)
  then show ?thesis using I by (auto intro: inv_task_same simp: set_pc_def)
next
  case (Acquire c)
  then show ?thesis using I by (auto intro: inv_task_same simp: set_pc_def)
next
  case (Read_id c)
  then show ?thesis using I by (auto intro: inv_task_same simp: set_pc_def)
next
  case (Incr_id c)
  then show ?thesis using I by (auto intro: inv_task_same simp: set_pc_def split: call_pc.splits)
next
  case (Construct c res now)
  show ?thesis
  proof (cases "calls s c")
    case (L121 g)
    show ?thesis
    proof (cases res)
      case (Inl x)
      then show ?thesis using I L121 Construct
        by (auto intro: inv_task_same simp: set_pc_def release_def)
    next
      case (Inr gm)
      have "inv_task (set_pc (put_record s g (new_record g gm)) c (In_gate g (now + timeout_ms)))"
        by (rule inv_task_put [OF I record_ok_new [of g gm]]) (simp add: set_pc_def put_record_def)
      then show ?thesis using L121 Construct Inr by simp
    qed
  qed (use Construct I in simp_all)
next
  case (Poll c now)
  show ?thesis
  proof (cases "calls s c")
    case (In_gate g d)
    show ?thesis
    proof (cases "gate_iteration s g d now")
      case Gate_return
      then show ?thesis using Poll In_gate inv_task_control [OF inv_task_gate_passed [OF I]]
        by simp
    next
      case (Gate_raise x)
      then show ?thesis
        using Poll In_gate inv_task_control [OF inv_task_gate_failed [OF I]] inv_task_control [OF I]
        by simp
    next
      case Gate_sleep
      then show ?thesis using Poll In_gate I by simp
    qed
  qed (use Poll I in simp_all)
next
  case (Task_start g)
  then show ?thesis using inv_task_start [OF I] by simp
next
  case (Task_finish g out)
  then show ?thesis using inv_task_finish [OF I] by simp
next
  case (Engine g gm)
  show ?thesis
  proof (cases "records s g")
    case None
    then show ?thesis using Engine I by simp
  next
    case (Some rec)
    have "inv_task (put_record s g (rec\<lparr>game := gm\<rparr>))"
      by (rule inv_task_put [OF I record_ok_game [OF inv_taskD [OF I Some]]])
         (simp add: put_record_def)
    then show ?thesis using Engine Some by simp
  qed
next
  case (Human_waits g)
  then show ?thesis using I
    by (auto intro: inv_task_same simp: human_waits_def split: option.splits)
next
  case (Human_resumes g)
  then show ?thesis using I
    by (auto intro: inv_task_same simp: human_resumes_def split: option.splits)
next
  case (Submit g idx t)
  then show ?thesis using I by (auto intro: inv_task_same simp: submit_frame)
qed

lemma inv_fut_waiting:
  "inv_fut s \<Longrightarrow> human_action_futures s g = Some a \<Longrightarrow>
     \<exists>rec t. records s g = Some rec \<and> task rec = Some t \<and> phase t = Task_awaiting"
  unfolding inv_fut_def by blast

lemma inv_fut_created: "inv_fut s \<Longrightarrow> human_action_futures s g = Some a \<Longrightarrow> a < next_future s"
  unfolding inv_fut_def by blast

lemma inv_fut_inj:
  "inv_fut s \<Longrightarrow> human_action_futures s g = Some a \<Longrightarrow> human_action_futures s g' = Some a
     \<Longrightarrow> g = g'"
  unfolding inv_fut_def by blast

lemma inv_futI:
  assumes "\<And>g a. human_action_futures s g = Some a \<Longrightarrow>
      \<exists>rec t. records s g = Some rec \<and> task rec = Some t \<and> phase t = Task_awaiting"
    and "\<And>g a. human_action_futures s g = Some a \<Longrightarrow> a < next_future s"
    and "\<And>g g' a. human_action_futures s g = Some a \<Longrightarrow> human_action_futures s g' = Some a
      \<Longrightarrow> g = g'"
  shows "inv_fut s"
  unfolding inv_fut_def using assms by blast

lemma inv_fut_shrink:
  assumes I: "inv_fut s"
    and sub: "\<And>g a. human_action_futures s' g = Some a \<Longrightarrow> human_action_futures s g = Some a"
    and nf: "next_future s \<le> next_future s'"
    and keep: "\<And>g a rec t. human_action_futures s' g = Some a \<Longrightarrow> records s g = Some rec
        \<Longrightarrow> task rec = Some t \<Longrightarrow> phase t = Task_awaiting
        \<Longrightarrow> \<exists>rec' t'. records s' g = Some rec' \<and> task rec' = Some t' \<and> phase t' = Task_awaiting"
  shows "inv_fut s'"
proof (rule inv_futI)
  fix g a assume h: "human_action_futures s' g = Some a"
  from inv_fut_waiting [OF I sub [OF h]] obtain rec t
    where "records s g = Some rec" "task rec = Some t" "phase t = Task_awaiting" by blast
  from keep [OF h this]
  show "\<exists>rec t. records s' g = Some rec \<and> task rec = Some t \<and> phase t = Task_awaiting" .
next
  fix g a assume "human_action_futures s' g = Some a"
  then show "a < next_future s'" using inv_fut_created [OF I sub] nf by fastforce
next
  fix g g' a
  assume "human_action_futures s' g = Some a" "human_action_futures s' g' = Some a"
  then show "g = g'" using inv_fut_inj [OF I sub sub] by blast
qed

lemma inv_fut_same:
  "inv_fut s \<Longrightarrow> human_action_futures s' = human_action_futures s
     \<Longrightarrow> next_future s' = next_future s \<Longrightarrow> records s' = records s \<Longrightarrow> inv_fut s'"
  by (rule inv_fut_shrink) auto

lemma inv_fut_control: "inv_fut s1 \<Longrightarrow> inv_fut (release (set_pc s1 c pc))"
  by (rule inv_fut_same) (simp_all add: release_def set_pc_def)

lemma gate_passed_frame:
  "human_action_futures (gate_passed s g) = human_action_futures s"
  "next_future (gate_passed s g) = next_future s"
  "future_objects (gate_passed s g) = future_objects s"
  by (simp_all add: gate_passed_def put_record_def split: option.splits)

lemma gate_failed_frame:
  "human_action_futures (gate_failed s g e) = human_action_futures s"
  "next_future (gate_failed s g e) = next_future s"
  "future_objects (gate_failed s g e) = future_objects s"
  by (simp_all add: gate_failed_def put_record_def split: option.splits)

lemma inv_fut_gate_passed: "inv_fut s \<Longrightarrow> inv_fut (gate_passed s g)"
proof (rule inv_fut_shrink)
  fix g' a rec t
  assume "records s g' = Some rec" "task rec = Some t" "phase t = Task_awaiting"
  then show "\<exists>rec' t'. records (gate_passed s g) g' = Some rec' \<and> task rec' = Some t'
      \<and> phase t' = Task_awaiting"
    using gate_passed_records [of s g] by (cases "g' = g") auto
qed (simp_all add: gate_passed_frame)

lemma inv_fut_gate_failed: "inv_fut s \<Longrightarrow> inv_fut (gate_failed s g e)"
proof (rule inv_fut_shrink)
  fix g' a rec t
  assume "records s g' = Some rec" "task rec = Some t" "phase t = Task_awaiting"
  then show "\<exists>rec' t'. records (gate_failed s g e) g' = Some rec' \<and> task rec' = Some t'
      \<and> phase t' = Task_awaiting"
    using gate_failed_records [of s g e]
    by (cases "g' = g") (auto simp: task_cancel_def task_done_def)
qed (simp_all add: gate_failed_frame)

lemma inv_fut_start: "inv_fut s \<Longrightarrow> inv_fut (task_start s g)"
proof -
  assume I: "inv_fut s"
  show ?thesis
  proof (cases "\<exists>rec t. records s g = Some rec \<and> task rec = Some t \<and> phase t = Task_unstarted")
    case True
    then obtain rec t where r: "records s g = Some rec" "task rec = Some t"
      "phase t = Task_unstarted" by blast
    have none: "human_action_futures s g = None"
    proof (cases "human_action_futures s g")
      case (Some a)
      from inv_fut_waiting [OF I Some] r show ?thesis by simp
    qed simp
    show ?thesis unfolding task_start_effect [OF r]
      by (rule inv_fut_shrink [OF I]) (use none in \<open>auto split: if_splits\<close>)
  next
    case False
    then have "task_start s g = s"
      by (intro task_start_idle) (metis not_Some_eq)
    then show ?thesis using I by simp
  qed
qed

lemma inv_fut_finish: "inv_fut s \<Longrightarrow> inv_fut (task_finish s g out)"
proof -
  assume I: "inv_fut s"
  show ?thesis
  proof (cases "\<exists>rec t. records s g = Some rec \<and> task rec = Some t \<and> phase t = Task_awaiting
      \<and> engine_outcome t out")
    case True
    then obtain rec t where r: "records s g = Some rec" "task rec = Some t"
      "phase t = Task_awaiting" "engine_outcome t out" by blast
    show ?thesis unfolding task_finish_effect [OF r]
      by (rule inv_fut_shrink [OF I]) (auto split: if_splits)
  next
    case False
    then have "task_finish s g out = s"
      by (intro task_finish_idle) (metis not_Some_eq)
    then show ?thesis using I by simp
  qed
qed

lemma inv_fut_human_waits: "inv_fut s \<Longrightarrow> inv_fut (human_waits s g)"
proof -
  assume I: "inv_fut s"
  show ?thesis
  proof (cases "\<exists>rec. records s g = Some rec \<and> map_option phase (task rec) = Some Task_awaiting")
    case False
    then have "human_waits s g = s" by (auto simp: human_waits_def split: option.splits)
    then show ?thesis using I by simp
  next
    case True
    then obtain rec where r: "records s g = Some rec"
      "map_option phase (task rec) = Some Task_awaiting" by blast
    then obtain t where t: "task rec = Some t" "phase t = Task_awaiting" by auto
    have st: "human_waits s g =
        s\<lparr>human_action_futures := (human_action_futures s)(g \<mapsto> next_future s),
          future_objects := (future_objects s)(next_future s := Fut_pending),
          next_future := Suc (next_future s)\<rparr>"
      using r by (simp add: human_waits_def)
    show ?thesis unfolding st
    proof (rule inv_futI)
      fix g' a
      assume "human_action_futures (s\<lparr>human_action_futures := (human_action_futures s)(g \<mapsto> next_future s),
          future_objects := (future_objects s)(next_future s := Fut_pending),
          next_future := Suc (next_future s)\<rparr>) g' = Some a"
      then show "\<exists>rec t. records (s\<lparr>human_action_futures := (human_action_futures s)(g \<mapsto> next_future s),
          future_objects := (future_objects s)(next_future s := Fut_pending),
          next_future := Suc (next_future s)\<rparr>) g' = Some rec \<and> task rec = Some t \<and> phase t = Task_awaiting"
        using r(1) t inv_fut_waiting [OF I, of g' a] by (cases "g' = g") auto
    next
      fix g' a
      assume "human_action_futures (s\<lparr>human_action_futures := (human_action_futures s)(g \<mapsto> next_future s),
          future_objects := (future_objects s)(next_future s := Fut_pending),
          next_future := Suc (next_future s)\<rparr>) g' = Some a"
      then show "a < next_future (s\<lparr>human_action_futures := (human_action_futures s)(g \<mapsto> next_future s),
          future_objects := (future_objects s)(next_future s := Fut_pending),
          next_future := Suc (next_future s)\<rparr>)"
        using inv_fut_created [OF I, of g' a] by (cases "g' = g") auto
    next
      fix g' g'' a
      assume "human_action_futures (s\<lparr>human_action_futures := (human_action_futures s)(g \<mapsto> next_future s),
          future_objects := (future_objects s)(next_future s := Fut_pending),
          next_future := Suc (next_future s)\<rparr>) g' = Some a"
        "human_action_futures (s\<lparr>human_action_futures := (human_action_futures s)(g \<mapsto> next_future s),
          future_objects := (future_objects s)(next_future s := Fut_pending),
          next_future := Suc (next_future s)\<rparr>) g'' = Some a"
      then show "g' = g''"
        using inv_fut_created [OF I, of g' a] inv_fut_created [OF I, of g'' a]
          inv_fut_inj [OF I, of g' a g'']
        by (cases "g' = g"; cases "g'' = g") auto
    qed
  qed
qed

lemma inv_fut_step:
  assumes I: "inv_fut s" and D: "inv_ids s"
  shows "inv_fut (step e s)"
proof (cases e)
  case (Call c key)
  then show ?thesis using I by (auto intro: inv_fut_same simp: set_pc_def)
next
  case (Acquire c)
  then show ?thesis using I by (auto intro: inv_fut_same simp: set_pc_def)
next
  case (Read_id c)
  then show ?thesis using I by (auto intro: inv_fut_same simp: set_pc_def)
next
  case (Incr_id c)
  then show ?thesis using I by (auto intro: inv_fut_same simp: set_pc_def split: call_pc.splits)
next
  case (Construct c res now)
  show ?thesis
  proof (cases "calls s c")
    case (L121 g)
    show ?thesis
    proof (cases res)
      case (Inl x)
      then show ?thesis using I L121 Construct
        by (auto intro: inv_fut_same simp: set_pc_def release_def)
    next
      case (Inr gm)
      have fresh: "records s g = None" using inv_ids_fresh [OF D, of c g] L121 by simp
      have none: "human_action_futures s g = None"
      proof (cases "human_action_futures s g")
        case (Some a)
        from inv_fut_waiting [OF I Some] fresh show ?thesis by simp
      qed simp
      have "inv_fut (set_pc (put_record s g (new_record g gm)) c (In_gate g (now + timeout_ms)))"
        by (rule inv_fut_shrink [OF I])
           (use none in \<open>auto simp: set_pc_def put_record_def split: if_splits\<close>)
      then show ?thesis using L121 Construct Inr by simp
    qed
  qed (use Construct I in simp_all)
next
  case (Poll c now)
  show ?thesis
  proof (cases "calls s c")
    case (In_gate g d)
    show ?thesis
    proof (cases "gate_iteration s g d now")
      case Gate_return
      then show ?thesis using Poll In_gate inv_fut_control [OF inv_fut_gate_passed [OF I]]
        by simp
    next
      case (Gate_raise x)
      then show ?thesis
        using Poll In_gate inv_fut_control [OF inv_fut_gate_failed [OF I]] inv_fut_control [OF I]
        by simp
    next
      case Gate_sleep
      then show ?thesis using Poll In_gate I by simp
    qed
  qed (use Poll I in simp_all)
next
  case (Task_start g)
  then show ?thesis using inv_fut_start [OF I] by simp
next
  case (Task_finish g out)
  then show ?thesis using inv_fut_finish [OF I] by simp
next
  case (Engine g gm)
  show ?thesis
  proof (cases "records s g")
    case None
    then show ?thesis using Engine I by simp
  next
    case (Some rec)
    have "inv_fut (put_record s g (rec\<lparr>game := gm\<rparr>))"
      by (rule inv_fut_shrink [OF I]) (use Some in \<open>auto simp: put_record_def\<close>)
    then show ?thesis using Engine Some by simp
  qed
next
  case (Human_waits g)
  then show ?thesis using inv_fut_human_waits [OF I] by simp
next
  case (Human_resumes g)
  have "inv_fut (human_resumes s g)"
    by (rule inv_fut_shrink [OF I])
       (auto simp: human_resumes_def split: option.splits if_splits)
  then show ?thesis using Human_resumes by simp
next
  case (Submit g idx t)
  have "inv_fut (snd (submit_human_action s g idx t))"
    by (rule inv_fut_shrink [OF I])
       (auto simp: submit_human_action_def Let_def split: option.splits if_splits)
  then show ?thesis using Submit by simp
qed

lemma records_kept: "records s g \<noteq> None \<Longrightarrow> records (step e s) g \<noteq> None"
proof (cases "control_event e")
  case False
  assume "records s g \<noteq> None"
  then show ?thesis using other_event_control [OF False, of s] unfolding same_control_def by metis
next
  case True
  assume r: "records s g \<noteq> None"
  show ?thesis
  proof (cases e)
    case (Call c key)
    then show ?thesis using r by (simp add: set_pc_def)
  next
    case (Acquire c)
    then show ?thesis using r by (simp add: set_pc_def)
  next
    case (Read_id c)
    then show ?thesis using r by (simp add: set_pc_def)
  next
    case (Incr_id c)
    then show ?thesis using r by (simp add: set_pc_def split: call_pc.splits)
  next
    case (Construct c res now)
    then show ?thesis using r
      by (simp add: set_pc_def release_def put_record_def split: call_pc.splits sum.splits)
  next
    case (Poll c now)
    show ?thesis
    proof (cases "calls s c")
      case (In_gate g' d)
      from poll_shape [OF In_gate, of now]
      consider "step (Poll c now) s = s"
        | s1 pc where "same_control s s1" "step (Poll c now) s = release (set_pc s1 c pc)"
        by blast
      then show ?thesis unfolding Poll
      proof cases
        case 1
        then show "records (step (Poll c now) s) g \<noteq> None" using r by simp
      next
        case (2 s1 pc)
        have "records s1 g \<noteq> None" using 2(1) r unfolding same_control_def by metis
        then show "records (step (Poll c now) s) g \<noteq> None"
          unfolding 2(2) by (simp add: release_def set_pc_def)
      qed
    qed (use Poll r in simp_all)
  qed (use True in \<open>simp_all add: control_event_def\<close>)
qed

lemma inv_recD:
  "inv_rec s \<Longrightarrow> calls s c = Returned g \<or> calls s c = In_gate g d \<Longrightarrow> records s g \<noteq> None"
  unfolding inv_rec_def by blast

lemma inv_rec_step:
  assumes I: "inv_rec s"
  shows "inv_rec (step e s)"
  unfolding inv_rec_def
proof (intro allI impI)
  fix c g
  assume A: "calls (step e s) c = Returned g \<or> (\<exists>d. calls (step e s) c = In_gate g d)"
  show "records (step e s) g \<noteq> None"
  proof (cases "calls s c = Returned g \<or> (\<exists>d. calls s c = In_gate g d)")
    case True
    then have "records s g \<noteq> None" using I unfolding inv_rec_def by blast
    then show ?thesis by (rule records_kept)
  next
    case False
    show ?thesis
    proof (cases "control_event e")
      case nc: False
      then have "calls (step e s) = calls s"
        using other_event_control [OF nc, of s] by (simp add: same_control_def)
      with A False show ?thesis by simp
    next
      case True
      show ?thesis
      proof (cases e)
        case (Call c' key)
        then show ?thesis using A False by (auto simp: set_pc_def split: if_splits)
      next
        case (Acquire c')
        then show ?thesis using A False by (auto simp: set_pc_def split: if_splits)
      next
        case (Read_id c')
        then show ?thesis using A False by (auto simp: set_pc_def split: if_splits)
      next
        case (Incr_id c')
        then show ?thesis using A False
          by (auto simp: set_pc_def split: if_splits call_pc.splits)
      next
        case (Construct c' res now)
        then show ?thesis using A False
          by (auto simp: set_pc_def release_def put_record_def
                split: if_splits call_pc.splits sum.splits)
      next
        case (Poll c' now)
        show ?thesis
        proof (cases "calls s c'")
          case (In_gate g' d)
          have rec: "records s g' \<noteq> None" using inv_recD [OF I, of c' g' d] In_gate by simp
          from poll_shape [OF In_gate, of now]
          consider "step (Poll c' now) s = s"
            | s1 pc where "same_control s s1" "step (Poll c' now) s = release (set_pc s1 c' pc)"
               "pc = Returned g' \<or> (\<exists>x. pc = Raised x)"
            by blast
          then show ?thesis unfolding Poll
          proof cases
            case 1
            then show "records (step (Poll c' now) s) g \<noteq> None" using A False Poll by simp
          next
            case (2 s1 pc)
            have cs: "calls s1 = calls s" using 2(1) by (simp add: same_control_def)
            have "c = c' \<and> g = g'"
              using A False 2(3) unfolding Poll 2(2)
              by (auto simp: release_def set_pc_def cs split: if_splits)
            moreover have "records s1 g' \<noteq> None"
              using 2(1) rec unfolding same_control_def by metis
            ultimately show "records (step (Poll c' now) s) g \<noteq> None"
              unfolding 2(2) by (simp add: release_def set_pc_def)
          qed
        qed (use Poll A False in simp_all)
      qed (use True in \<open>simp_all add: control_event_def\<close>)
    qed
  qed
qed

lemma inv_step: "inv s \<Longrightarrow> inv (step e s)"
  unfolding inv_def
  using inv_lock_step inv_ids_step inv_entered_step inv_task_step inv_rec_step inv_fut_step
  by blast

lemma inv_init: "inv init"
  by (simp add: inv_def inv_lock_def inv_ids_def inv_entered_def inv_task_def inv_rec_def
        inv_fut_def init_def)

lemma inv_run_from: "inv s \<Longrightarrow> inv (run es s)"
  by (induction es arbitrary: s) (simp_all add: inv_step)

lemma inv_run: "inv (run es init)"
  by (rule inv_run_from [OF inv_init])

lemma run_append: "run (es @ es') s = run es' (run es s)"
  by (induction es arbitrary: s) simp_all

subsection \<open>The readiness gate and the failure of the task\<close>

lemma demo_created_eval:
  "records demo_created 1 = Some \<lparr>game_id = 1, game = blank_game, status = Initializing,
      task = Some \<lparr>phase = Task_unstarted, must_cancel = False\<rparr>,
      error = None, winner = None, winner_reason = None\<rparr>"
  "calls demo_created 0 = In_gate 1 10000"
  by (simp_all add: demo_created_def demo_defs step_defs)

lemma demo_failed_early_eval:
  "records demo_failed_early 1 = Some \<lparr>game_id = 1, game = blank_game, status = Error,
      task = Some \<lparr>phase = Task_done None, must_cancel = False\<rparr>,
      error = Some ''boom'', winner = None, winner_reason = None\<rparr>"
  "calls demo_failed_early 0 = In_gate 1 10000"
  by (simp_all add: demo_failed_early_def demo_begin_def demo_defs step_defs)

lemma demo_cancelled_early_eval:
  "records demo_cancelled_early 1 = Some \<lparr>game_id = 1, game = blank_game, status = Running,
      task = Some \<lparr>phase = Task_cancelled, must_cancel = False\<rparr>,
      error = None, winner = None, winner_reason = None\<rparr>"
  "calls demo_cancelled_early 0 = In_gate 1 10000"
  by (simp_all add: demo_cancelled_early_def demo_begin_def demo_defs step_defs)

lemma task_failure_none: "inv_task s \<Longrightarrow> task_failure s g = None"
proof (cases "records s g")
  case None
  then show ?thesis by (simp add: task_failure_def)
next
  case (Some rec)
  assume "inv_task s"
  from inv_taskD [OF this Some] show ?thesis using Some
    by (auto simp: task_failure_def record_ok_def task_done_def
             split: option.splits task_phase.splits)
qed

text \<open>
  C6. \<^verbatim>\<open>_run_game\<close> catches every \<^verbatim>\<open>Exception\<close> of the run loop (line 79), so a task
  that is done never holds an exception: in every reachable state \<^verbatim>\<open>task.exception()\<close>
  is \<^verbatim>\<open>None\<close>, and the branch of the gate that would carry the failure (lines 95 and
  96) is never taken. In the session whose run loop failed with "boom" before a human
  agent was seen, the gate raises "Game finished before human initialization completed.",
  without the failure, and the handler of \<^verbatim>\<open>create_game\<close> then overwrites the recorded
  failure with that message. In the session whose task was cancelled, \<^verbatim>\<open>task.exception()\<close>
  raises, and the gate is left by \<^verbatim>\<open>CancelledError\<close>.
\<close>

theorem gate_failure_not_carried:
  "task_failure (run es init) g = None
   \<and> records demo_failed_early 1 = Some \<lparr>game_id = 1, game = blank_game, status = Error,
        task = Some \<lparr>phase = Task_done None, must_cancel = False\<rparr>,
        error = Some ''boom'', winner = None, winner_reason = None\<rparr>
   \<and> wait_for_human_agent_ready (\<lambda>k. if k = 0 then demo_created else demo_failed_early)
        (\<lambda>_. 0) 1 10000 0
       = (Inl (RuntimeError ''Game finished before human initialization completed.''), 1, 50)
   \<and> wait_for_human_agent_ready (\<lambda>k. if k = 0 then demo_created else demo_cancelled_early)
        (\<lambda>_. 0) 1 10000 0
       = (Inl CancelledError, 1, 50)
   \<and> map_option error (records (step (Poll 0 50) demo_failed_early) 1)
       = Some (Some ''Game finished before human initialization completed.'')"
proof -
  have a: "task_failure (run es init) g = None"
    using inv_run [of es] by (simp add: inv_def task_failure_none)
  have body: "gate_body demo_created 1 = Gate_sleep"
    "gate_body demo_failed_early 1
       = Gate_raise (RuntimeError ''Game finished before human initialization completed.'')"
    "gate_body demo_cancelled_early 1 = Gate_raise CancelledError"
    by (simp_all add: gate_body_def demo_created_eval demo_failed_early_eval
          demo_cancelled_early_eval task_done_def blank_game_def find_human_agent_def
          agents_or_empty_def)
  have b: "wait_for_human_agent_ready (\<lambda>k. if k = 0 then demo_created else demo_failed_early)
        (\<lambda>_. 0) 1 10000 0
       = (Inl (RuntimeError ''Game finished before human initialization completed.''), 1, 50)"
    by (simp add: wait_for_human_agent_ready_def gate_loop.simps body)
  have c: "wait_for_human_agent_ready (\<lambda>k. if k = 0 then demo_created else demo_cancelled_early)
        (\<lambda>_. 0) 1 10000 0
       = (Inl CancelledError, 1, 50)"
    by (simp add: wait_for_human_agent_ready_def gate_loop.simps body)
  have d: "map_option error (records (step (Poll 0 50) demo_failed_early) 1)
       = Some (Some ''Game finished before human initialization completed.'')"
    by (simp add: demo_failed_early_eval gate_iteration_def body gate_failed_def step_defs)
  from a b c d demo_failed_early_eval(1) show ?thesis by simp
qed

subsection \<open>Submissions after the request is resolved\<close>

lemma no_pending_rejected:
  assumes "no_pending s gid"
  shows "\<exists>e. submit_human_action s gid idx t = (Inl e, s)
             \<and> fst (submit_human_action (unregistered s gid) gid idx t) = Inl e
             \<and> ((\<exists>rec h. records s gid = Some rec \<and> status rec \<noteq> Completed
                    \<and> status rec \<noteq> Error \<and> find_human_agent (game rec) = Some h)
                  \<longrightarrow> e = RuntimeError ''Game is not currently waiting for a human action.'')"
  using assms
  by (auto simp: no_pending_def unregistered_def submit_human_action_def Let_def
           split: option.splits)

lemma no_pending_accepted:
  "fst (submit_human_action s gid idx t) = Inr () \<Longrightarrow>
     no_pending (snd (submit_human_action s gid idx t)) gid"
  by (auto simp: no_pending_def submit_human_action_def Let_def split: option.splits if_splits)

lemma no_pending_frame:
  "human_action_futures s' = human_action_futures s \<Longrightarrow> future_objects s' = future_objects s
     \<Longrightarrow> no_pending s g \<Longrightarrow> no_pending s' g"
  by (simp add: no_pending_def split: option.splits)

lemma no_pending_step:
  assumes I: "inv s" and N: "no_pending s g" and E: "e \<noteq> Human_waits g"
  shows "no_pending (step e s) g"
proof (cases e)
  case (Call c key)
  then show ?thesis using N by (auto intro: no_pending_frame simp: set_pc_def)
next
  case (Acquire c)
  then show ?thesis using N by (auto intro: no_pending_frame simp: set_pc_def)
next
  case (Read_id c)
  then show ?thesis using N by (auto intro: no_pending_frame simp: set_pc_def)
next
  case (Incr_id c)
  then show ?thesis using N
    by (auto intro: no_pending_frame simp: set_pc_def split: call_pc.splits)
next
  case (Construct c res now)
  then show ?thesis using N
    by (auto intro: no_pending_frame simp: set_pc_def release_def put_record_def
          split: call_pc.splits sum.splits)
next
  case (Poll c now)
  have "human_action_futures (step (Poll c now) s) = human_action_futures s
      \<and> future_objects (step (Poll c now) s) = future_objects s"
    by (simp add: set_pc_def release_def gate_passed_frame gate_failed_frame
          split: call_pc.splits gate_step.splits)
  then show ?thesis using N Poll no_pending_frame by blast
next
  case (Task_start g')
  have "human_action_futures (task_start s g') = human_action_futures s
      \<and> future_objects (task_start s g') = future_objects s"
    by (simp add: task_start_def run_game_begin_def set_task_phase_def put_record_def
          split: option.splits)
  then show ?thesis using N Task_start no_pending_frame by auto
next
  case (Task_finish g' out)
  show ?thesis
  proof (cases "\<exists>rec t. records s g' = Some rec \<and> task rec = Some t \<and> phase t = Task_awaiting
      \<and> engine_outcome t out")
    case True
    then obtain rec t where r: "records s g' = Some rec" "task rec = Some t"
      "phase t = Task_awaiting" "engine_outcome t out" by blast
    show ?thesis unfolding Task_finish step.simps task_finish_effect [OF r]
      using N by (auto simp: no_pending_def cancelled_futures_def split: option.splits)
  next
    case False
    then have "task_finish s g' out = s"
      by (intro task_finish_idle) (metis not_Some_eq)
    then show ?thesis using N Task_finish by simp
  qed
next
  case (Engine g' gm)
  then show ?thesis using N
    by (auto intro: no_pending_frame simp: put_record_def split: option.splits)
next
  case (Human_waits g')
  then have ne: "g' \<noteq> g" using E by simp
  have F: "inv_fut s" using I by (simp add: inv_def)
  show ?thesis
  proof (cases "human_action_futures s g")
    case None
    then show ?thesis using Human_waits ne
      by (simp add: no_pending_def human_waits_def split: option.splits)
  next
    case (Some a)
    then have "a < next_future s" using inv_fut_created [OF F] by simp
    then show ?thesis using Human_waits ne N Some
      by (simp add: no_pending_def human_waits_def split: option.splits)
  qed
next
  case (Human_resumes g')
  then show ?thesis using N
    by (auto simp: no_pending_def human_resumes_def split: option.splits)
next
  case (Submit g' idx t)
  then show ?thesis using N
    by (auto simp: no_pending_def submit_human_action_def Let_def split: option.splits)
qed

lemma no_pending_run:
  "inv s \<Longrightarrow> no_pending s g \<Longrightarrow> Human_waits g \<notin> set es \<Longrightarrow> no_pending (run es s) g"
proof (induction es arbitrary: s)
  case Nil
  then show ?case by simp
next
  case (Cons e es)
  from Cons.prems have "e \<noteq> Human_waits g" by auto
  from no_pending_step [OF Cons.prems(1,2) this] inv_step [OF Cons.prems(1), of e] Cons.prems(3)
  show ?case by (simp add: Cons.IH)
qed

lemma task_finished_no_pending:
  assumes "inv s" "task_finished s g"
  shows "no_pending s g"
proof (cases "human_action_futures s g")
  case None
  then show ?thesis by (simp add: no_pending_def)
next
  case (Some a)
  have "inv_fut s" using assms(1) by (simp add: inv_def)
  from inv_fut_waiting [OF this Some] assms(2) show ?thesis
    by (auto simp: task_finished_def task_done_def)
qed

text \<open>
  C5, as amended. Let the request of a game be fulfilled by an accepted submission, or
  let the task of the game end, which cancels and removes a pending request. Then, until
  the human agent registers a new request for the game, every submission for its id is
  rejected and changes nothing. Its error is the one that the same submission meets when
  no future is registered under the id; for a game that is neither completed nor failed
  and has its human agent, this is the \<^verbatim>\<open>RuntimeError\<close> "Game is not currently waiting
  for a human action.".
\<close>

theorem second_submit_rejected:
  assumes "fst (submit_human_action (run es init) gid idx t) = Inr ()
             \<and> s1 = snd (submit_human_action (run es init) gid idx t)
           \<or> s1 = step (Task_finish gid out) (run es init) \<and> task_finished s1 gid"
    and "Human_waits gid \<notin> set es'"
  shows "\<exists>e. submit_human_action (run es' s1) gid idx' t' = (Inl e, run es' s1)
           \<and> fst (submit_human_action (unregistered (run es' s1) gid) gid idx' t') = Inl e
           \<and> ((\<exists>rec h. records (run es' s1) gid = Some rec \<and> status rec \<noteq> Completed
                  \<and> status rec \<noteq> Error \<and> find_human_agent (game rec) = Some h)
                \<longrightarrow> e = RuntimeError ''Game is not currently waiting for a human action.'')"
proof -
  have I0: "inv (run es init)" by (rule inv_run)
  have "inv s1 \<and> no_pending s1 gid"
    using assms(1)
  proof (elim disjE conjE)
    assume a: "fst (submit_human_action (run es init) gid idx t) = Inr ()"
      and b: "s1 = snd (submit_human_action (run es init) gid idx t)"
    have "s1 = step (Submit gid idx t) (run es init)" using b by simp
    then have "inv s1" using inv_step [OF I0, of "Submit gid idx t"] by simp
    then show ?thesis using no_pending_accepted [OF a] b by simp
  next
    assume a: "s1 = step (Task_finish gid out) (run es init)" and b: "task_finished s1 gid"
    have "inv s1" unfolding a by (rule inv_step [OF I0])
    then show ?thesis using task_finished_no_pending b by simp
  qed
  then have "no_pending (run es' s1) gid" using no_pending_run assms(2) by blast
  from no_pending_rejected [OF this] show ?thesis .
qed

lemma demo_retired_eval:
  "records demo_retired 1 = records demo_waiting 1"
  "human_action_futures demo_retired 1 = None"
  by (simp_all add: demo_retired_def demo_submitted_eval(1,2,3) human_resumes_def)

theorem second_submit_rejected_witness:
  "submit_human_action demo_retired 1 3 (Some ''hello'')
     = (Inl (RuntimeError ''Game is not currently waiting for a human action.''), demo_retired)
   \<and> human_action_futures demo_waiting 1 = Some 0
   \<and> future_objects demo_finished 0 = Fut_cancelled
   \<and> submit_human_action demo_finished 1 3 (Some ''hello'')
     = (Inl (RuntimeError ''Game 1 is already completed.''), demo_finished)"
proof -
  have accepted: "fst (submit_human_action (run (demo_create @ [Human_waits 1]) init) 1 3
      (Some ''hello'')) = Inr ()"
    unfolding demo_waiting_def [symmetric]
    by (simp add: submit_human_action_def demo_waiting_eval demo_find_human)
  have s1: "demo_submitted
      = snd (submit_human_action (run (demo_create @ [Human_waits 1]) init) 1 3 (Some ''hello''))"
    unfolding demo_waiting_def [symmetric] by (rule demo_submitted_eval(4))
  have a: "submit_human_action demo_retired 1 3 (Some ''hello'')
     = (Inl (RuntimeError ''Game is not currently waiting for a human action.''), demo_retired)"
    using second_submit_rejected [where es = "demo_create @ [Human_waits 1]" and gid = 1
        and idx = 3 and t = "Some ''hello''" and ?s1.0 = demo_submitted
        and es' = "[Human_resumes 1]" and idx' = 3 and t' = "Some ''hello''"]
      accepted s1
    unfolding demo_retired_def [symmetric]
    by (auto simp: demo_retired_eval demo_waiting_eval demo_find_human)
  have fin: "demo_finished = step (Task_finish 1 Returns) (run (demo_create @ [Human_waits 1]) init)"
    by (simp add: demo_finished_def run_append)
  have tdone: "task_finished demo_finished 1"
    by (simp add: task_finished_def demo_finished_eval task_done_def)
  have b: "submit_human_action demo_finished 1 3 (Some ''hello'')
     = (Inl (RuntimeError ''Game 1 is already completed.''), demo_finished)"
    using second_submit_rejected [where es = "demo_create @ [Human_waits 1]" and gid = 1
        and out = Returns and ?s1.0 = demo_finished and es' = "[]" and idx' = 3
        and t' = "Some ''hello''" and idx = 0 and t = None]
      fin tdone
    by (auto simp: unregistered_def submit_human_action_def demo_finished_eval
          str_int_def digits.simps)
  from a b demo_waiting_eval(3) demo_finished_eval(3) show ?thesis by simp
qed

subsection \<open>The ids of concurrent calls\<close>

lemma returned_of_iff: "returned_of cs c = Some g \<longleftrightarrow> cs c = Returned g"
  by (simp add: returned_of_def split: call_pc.splits)

lemma returned_allocated:
  assumes "\<And>c g g'. (c, g) \<in> set al \<Longrightarrow> cs c = Returned g' \<Longrightarrow> g' = g"
  shows "List.map_filter (returned_of cs) (map fst al)
       = map snd (filter (\<lambda>(c, g). cs c = Returned g) al)"
  using assms
proof (induction al)
  case Nil
  then show ?case by (simp add: map_filter_simps)
next
  case (Cons x al)
  obtain c g where x: "x = (c, g)" by (cases x)
  have IH: "List.map_filter (returned_of cs) (map fst al)
       = map snd (filter (\<lambda>(c, g). cs c = Returned g) al)"
    by (rule Cons.IH) (use Cons.prems in auto)
  show ?case
  proof (cases "returned_of cs c")
    case None
    then have "cs c \<noteq> Returned g" by (auto simp: returned_of_def)
    with None IH x show ?thesis by (simp add: map_filter_simps)
  next
    case (Some g')
    then have "cs c = Returned g'" by (simp add: returned_of_iff)
    moreover from this have "g' = g" using Cons.prems [of c g g'] x by simp
    ultimately show ?thesis using Some IH x by (simp add: map_filter_simps)
  qed
qed

lemma map_filter_append: "List.map_filter f (xs @ ys) = List.map_filter f xs @ List.map_filter f ys"
  by (simp add: List.map_filter_def)

lemma returned_ids_allocated:
  assumes I: "inv s"
  shows "returned_ids s = map snd (filter (\<lambda>(c, g). calls s c = Returned g) (allocated s))"
proof -
  have E: "inv_entered s" and D: "inv_ids s" using I by (simp_all add: inv_def)
  have shape: "entered s = map fst (allocated s)
      \<or> (\<exists>c. calls s c = L118 \<and> entered s = map fst (allocated s) @ [c])"
    using inv_entered_pending [OF E] inv_entered_settled [OF E] by blast
  have dist: "distinct (map fst (allocated s))"
    using shape inv_entered_distinct [OF E] by auto
  have uniq: "\<And>c g g'. (c, g) \<in> set (allocated s) \<Longrightarrow> calls s c = Returned g' \<Longrightarrow> g' = g"
  proof -
    fix c g g' assume m: "(c, g) \<in> set (allocated s)" and r: "calls s c = Returned g'"
    have "(c, g') \<in> set (allocated s)" using inv_ids_holds [OF D, of c g'] r by simp
    with m dist show "g' = g" by (meson eq_key_imp_eq_value)
  qed
  have "returned_ids s = List.map_filter (returned_of (calls s)) (map fst (allocated s))"
    using shape
  proof
    assume "entered s = map fst (allocated s)"
    then show ?thesis by (simp add: returned_ids_def)
  next
    assume "\<exists>c. calls s c = L118 \<and> entered s = map fst (allocated s) @ [c]"
    then obtain c where "calls s c = L118" "entered s = map fst (allocated s) @ [c]" by blast
    then show ?thesis
      by (simp add: returned_ids_def returned_of_def map_filter_append map_filter_simps)
  qed
  then show ?thesis using returned_allocated [of "allocated s" "calls s", OF uniq] by simp
qed

lemma returned_ids_sorted: "inv s \<Longrightarrow> sorted_wrt (<) (returned_ids s)"
proof -
  assume I: "inv s"
  then have "sorted_wrt (<) (map snd (allocated s))" by (simp add: inv_def inv_ids_sorted)
  then have "sorted_wrt (\<lambda>x y. snd x < snd y) (allocated s)" by (simp add: sorted_wrt_map)
  then have "sorted_wrt (\<lambda>x y. snd x < snd y)
      (filter (\<lambda>(c, g). calls s c = Returned g) (allocated s))"
    by (rule sorted_wrt_filter)
  then show ?thesis unfolding returned_ids_allocated [OF I] by (simp add: sorted_wrt_map)
qed

lemma returned_entered:
  assumes I: "inv s" and r: "calls s c = Returned g"
  shows "c \<in> set (entered s)"
proof -
  have E: "inv_entered s" and D: "inv_ids s" using I by (simp_all add: inv_def)
  have "(c, g) \<in> set (allocated s)" using inv_ids_holds [OF D, of c g] r by simp
  then have "c \<in> set (map fst (allocated s))" by force
  moreover have "entered s = map fst (allocated s)
      \<or> (\<exists>c. calls s c = L118 \<and> entered s = map fst (allocated s) @ [c])"
    using inv_entered_pending [OF E] inv_entered_settled [OF E] by blast
  ultimately show ?thesis by (elim disjE exE conjE) (simp_all del: set_map)
qed

lemma returned_in_ids:
  assumes I: "inv s" and r: "calls s c = Returned g"
  shows "g \<in> set (returned_ids s)"
proof -
  have "returned_of (calls s) c = Some g" using r by (simp add: returned_of_iff)
  then have "g \<in> (the \<circ> returned_of (calls s))
      ` {x \<in> set (entered s). returned_of (calls s) x \<noteq> None}"
    using returned_entered [OF I r] by force
  then show ?thesis by (simp add: returned_ids_def List.map_filter_def)
qed

lemma returned_unique:
  assumes I: "inv s" and r: "calls s c = Returned g" and r': "calls s c' = Returned g"
  shows "c = c'"
proof -
  have D: "inv_ids s" using I by (simp add: inv_def)
  have m: "(c, g) \<in> set (allocated s)" "(c', g) \<in> set (allocated s)"
    using inv_ids_holds [OF D] r r' by simp_all
  have "sorted_wrt (<) (map snd (allocated s))" using D by (rule inv_ids_sorted)
  then have "distinct (map snd (allocated s))" using strict_sorted_iff by blast
  then have "inj_on snd (set (allocated s))" by (simp add: distinct_map)
  from inj_onD [OF this _ m] have "(c, g) = (c', g)" by simp
  then show ?thesis by simp
qed

lemma others_blocked:
  assumes I: "inv s" and k: "in_critical (calls s c)" and ne: "c' \<noteq> c"
  shows "step (Acquire c') s = s" "step (Read_id c') s = s" "step (Incr_id c') s = s"
    "step (Construct c' res now) s = s" "step (Poll c' now) s = s"
proof -
  have L: "inv_lock s" using I by (simp add: inv_def)
  have lk: "init_lock s = Some c" using L k by (simp add: inv_lock_def)
  have nc: "\<not> in_critical (calls s c')" using inv_lock_only [OF L k] ne by blast
  show "step (Acquire c') s = s" using lk by simp
  show "step (Read_id c') s = s" using nc by (cases "calls s c'") simp_all
  show "step (Incr_id c') s = s" using nc by (cases "calls s c'") simp_all
  show "step (Construct c' res now) s = s" using nc by (cases "calls s c'") simp_all
  show "step (Poll c' now) s = s" using nc by (cases "calls s c'") simp_all
qed


text \<open>
  C2. In every state that the event loop can reach, whatever the interleaving of the
  calls of \<^verbatim>\<open>create_game\<close> with each other and with the tasks: the ids that calls have
  returned, listed in the order in which the calls entered the lock, are strictly
  increasing, hence pairwise distinct; a call that has returned an id entered the lock,
  its record is in the registry, and no other call has returned the same id; and while a
  call is between acquiring and releasing the lock no other call is, and no step of
  another call that acquires the lock, reads or increments the counter, or inserts a
  record takes effect.
\<close>

theorem create_game_ids:
  "sorted_wrt (<) (returned_ids (run es init))
   \<and> distinct (returned_ids (run es init))
   \<and> (\<forall>c g. calls (run es init) c = Returned g \<longrightarrow>
          c \<in> set (entered (run es init)) \<and> g \<in> set (returned_ids (run es init))
          \<and> records (run es init) g \<noteq> None
          \<and> (\<forall>c'. calls (run es init) c' = Returned g \<longrightarrow> c' = c))
   \<and> (\<forall>c c'. in_critical (calls (run es init) c) \<and> c' \<noteq> c \<longrightarrow>
          \<not> in_critical (calls (run es init) c')
          \<and> step (Acquire c') (run es init) = run es init
          \<and> step (Read_id c') (run es init) = run es init
          \<and> step (Incr_id c') (run es init) = run es init
          \<and> (\<forall>res now. step (Construct c' res now) (run es init) = run es init))"
proof -
  let ?s = "run es init"
  have I: "inv ?s" by (rule inv_run)
  have L: "inv_lock ?s" and R: "inv_rec ?s" using I by (simp_all add: inv_def)
  have a: "sorted_wrt (<) (returned_ids ?s)" by (rule returned_ids_sorted [OF I])
  then have b: "distinct (returned_ids ?s)" using strict_sorted_iff by blast
  have c: "\<forall>c g. calls ?s c = Returned g \<longrightarrow>
          c \<in> set (entered ?s) \<and> g \<in> set (returned_ids ?s) \<and> records ?s g \<noteq> None
          \<and> (\<forall>c'. calls ?s c' = Returned g \<longrightarrow> c' = c)"
  proof (intro allI impI conjI)
    fix c g assume r: "calls ?s c = Returned g"
    show "c \<in> set (entered ?s)" by (rule returned_entered [OF I r])
    show "g \<in> set (returned_ids ?s)" by (rule returned_in_ids [OF I r])
    show "records ?s g \<noteq> None" using inv_recD [OF R, of c g] r by simp
    fix c' assume "calls ?s c' = Returned g"
    then show "c' = c" using returned_unique [OF I r] by simp
  qed
  have d: "\<forall>c c'. in_critical (calls ?s c) \<and> c' \<noteq> c \<longrightarrow>
          \<not> in_critical (calls ?s c')
          \<and> step (Acquire c') ?s = ?s \<and> step (Read_id c') ?s = ?s
          \<and> step (Incr_id c') ?s = ?s
          \<and> (\<forall>res now. step (Construct c' res now) ?s = ?s)"
  proof (intro allI impI)
    fix c c' assume "in_critical (calls ?s c) \<and> c' \<noteq> c"
    then have k: "in_critical (calls ?s c)" and ne: "c' \<noteq> c" by simp_all
    have "\<not> in_critical (calls ?s c')" using inv_lock_only [OF L k] ne by blast
    then show "\<not> in_critical (calls ?s c')
          \<and> step (Acquire c') ?s = ?s \<and> step (Read_id c') ?s = ?s
          \<and> step (Incr_id c') ?s = ?s
          \<and> (\<forall>res now. step (Construct c' res now) ?s = ?s)"
      using others_blocked [OF I k ne] by simp
  qed
  from a b c d show ?thesis by blast
qed

lemma demo_two_mid_eval:
  "calls demo_two_mid 1 = L121 1"
  "calls demo_two_mid 0 = At_lock"
  "entered demo_two_mid = [1]"
  by (simp_all add: demo_two_mid_def demo_two_head_def init_def step_defs)

lemma demo_two_eval:
  "calls demo_two 1 = Returned 1"
  "calls demo_two 0 = Returned 2"
  "entered demo_two = [1, 0]"
  by (simp_all add: demo_two_def demo_two_head_def demo_two_tail_def demo_defs step_defs)

theorem create_game_ids_witness:
  "calls demo_two 1 = Returned 1 \<and> calls demo_two 0 = Returned 2
   \<and> entered demo_two = [1, 0] \<and> returned_ids demo_two = [1, 2]
   \<and> sorted_wrt (<) (returned_ids demo_two)
   \<and> records demo_two 1 \<noteq> None \<and> records demo_two 2 \<noteq> None
   \<and> in_critical (calls demo_two_mid 1)
   \<and> step (Acquire 0) demo_two_mid = demo_two_mid
   \<and> step (Read_id 0) demo_two_mid = demo_two_mid"
proof -
  note T = create_game_ids [of "demo_two_head @ demo_two_tail", folded demo_two_def]
  note M = create_game_ids [of demo_two_head, folded demo_two_mid_def]
  have ids: "returned_ids demo_two = [1, 2]"
    using demo_two_eval by (simp add: returned_ids_def returned_of_def List.map_filter_def)
  from T have s: "sorted_wrt (<) (returned_ids demo_two)" by blast
  from T have "\<forall>c g. calls demo_two c = Returned g \<longrightarrow> records demo_two g \<noteq> None" by blast
  then have r: "records demo_two 1 \<noteq> None" "records demo_two 2 \<noteq> None"
    using demo_two_eval(1,2) by blast+
  from M have "\<forall>c c'. in_critical (calls demo_two_mid c) \<and> c' \<noteq> c \<longrightarrow>
      step (Acquire c') demo_two_mid = demo_two_mid
      \<and> step (Read_id c') demo_two_mid = demo_two_mid" by blast
  then have "in_critical (calls demo_two_mid 1) \<and> (0::nat) \<noteq> 1 \<longrightarrow>
      step (Acquire 0) demo_two_mid = demo_two_mid
      \<and> step (Read_id 0) demo_two_mid = demo_two_mid" by blast
  then have b: "step (Acquire 0) demo_two_mid = demo_two_mid
      \<and> step (Read_id 0) demo_two_mid = demo_two_mid"
    using demo_two_mid_eval by (simp del: step.simps)
  show ?thesis using ids s r b demo_two_eval demo_two_mid_eval by (simp del: step.simps)
qed

subsection \<open>Terminal statuses\<close>

lemma in_gate_of_step:
  assumes I: "inv s" and r: "records s g \<noteq> None" and n: "\<not> in_gate_of s g"
  shows "\<not> in_gate_of (step e s) g"
proof (cases "control_event e")
  case False
  then have "calls (step e s) = calls s"
    using other_event_control [OF False, of s] by (simp add: same_control_def)
  then show ?thesis using n by (simp add: in_gate_of_def)
next
  case True
  have D: "inv_ids s" using I by (simp add: inv_def)
  show ?thesis
  proof (cases e)
    case (Call c key)
    then show ?thesis using n by (auto simp: in_gate_of_def set_pc_def split: if_splits)
  next
    case (Acquire c)
    then show ?thesis using n by (auto simp: in_gate_of_def set_pc_def split: if_splits)
  next
    case (Read_id c)
    then show ?thesis using n by (auto simp: in_gate_of_def set_pc_def split: if_splits)
  next
    case (Incr_id c)
    then show ?thesis using n
      by (auto simp: in_gate_of_def set_pc_def split: if_splits call_pc.splits)
  next
    case (Construct c res now)
    show ?thesis
    proof (cases "calls s c")
      case (L121 g')
      have "records s g' = None" using inv_ids_fresh [OF D, of c g'] L121 by simp
      then have "g' \<noteq> g" using r by auto
      then show ?thesis using n Construct L121
        by (auto simp: in_gate_of_def set_pc_def release_def put_record_def
              split: if_splits sum.splits)
    qed (use Construct n in simp_all)
  next
    case (Poll c now)
    show ?thesis
    proof (cases "calls s c")
      case (In_gate g' d)
      from poll_shape [OF In_gate, of now]
      consider "step (Poll c now) s = s"
        | s1 pc where "same_control s s1" "step (Poll c now) s = release (set_pc s1 c pc)"
           "pc = Returned g' \<or> (\<exists>x. pc = Raised x)"
        by blast
      then show ?thesis unfolding Poll
      proof cases
        case 1
        then show "\<not> in_gate_of (step (Poll c now) s) g" using n by simp
      next
        case (2 s1 pc)
        have cs: "calls s1 = calls s" using 2(1) by (simp add: same_control_def)
        show "\<not> in_gate_of (step (Poll c now) s) g" unfolding 2(2)
          using n 2(3) by (auto simp: in_gate_of_def release_def set_pc_def cs split: if_splits)
      qed
    qed (use Poll n in simp_all)
  qed (use True in \<open>simp_all add: control_event_def\<close>)
qed

lemma terminal_step:
  assumes I: "inv s" and r: "records s g = Some rec" and t: "terminal (status rec)"
  shows "\<exists>rec'. records (step e s) g = Some rec'
           \<and> (status rec' = status rec
               \<or> (status rec = Completed \<and> status rec' = Error
                   \<and> (\<exists>c now d x. e = Poll c now \<and> calls s c = In_gate g d
                          \<and> gate_iteration s g d now = Gate_raise x \<and> is_Exception x)))"
proof -
  have D: "inv_ids s" and T: "inv_task s" using I by (simp_all add: inv_def)
  have ok: "record_ok rec" using inv_taskD [OF T r] .
  then obtain tk where tk: "task rec = Some tk" using record_ok_task by blast
  have stop: "task_done tk \<or> must_cancel tk"
    using ok tk t by (auto simp: record_ok_def terminal_def)
  have same: "records (step e s) g = records s g \<Longrightarrow> ?thesis" using r by simp
  show ?thesis
  proof (cases e)
    case (Call c key)
    then show ?thesis by (intro same) (simp add: set_pc_def)
  next
    case (Acquire c)
    then show ?thesis by (intro same) (simp add: set_pc_def)
  next
    case (Read_id c)
    then show ?thesis by (intro same) (simp add: set_pc_def)
  next
    case (Incr_id c)
    then show ?thesis by (intro same) (simp add: set_pc_def split: call_pc.splits)
  next
    case (Construct c res now)
    show ?thesis
    proof (cases "calls s c")
      case (L121 g')
      have "records s g' = None" using inv_ids_fresh [OF D, of c g'] L121 by simp
      then have "g' \<noteq> g" using r by auto
      then show ?thesis using Construct L121
        by (intro same) (simp add: set_pc_def release_def put_record_def split: sum.splits)
    qed (use Construct r in simp_all)
  next
    case (Poll c now)
    show ?thesis
    proof (cases "calls s c")
      case (In_gate g' d)
      show ?thesis
      proof (cases "gate_iteration s g' d now")
        case Gate_sleep
        then show ?thesis using Poll In_gate by (intro same) simp
      next
        case Gate_return
        have "records (gate_passed s g') g = records s g"
          using gate_passed_records [of s g'] r t
          by (cases "g' = g") (auto simp: terminal_def)
        then show ?thesis using Poll In_gate Gate_return
          by (intro same) (simp add: release_def set_pc_def)
      next
        case (Gate_raise x)
        show ?thesis
        proof (cases "is_Exception x \<and> g' = g")
          case False
          have "records (gate_failed s g' x) g = records s g" if "g' \<noteq> g"
            using gate_failed_records [of s g' x] that by auto
          then show ?thesis using Poll In_gate Gate_raise False
            by (intro same) (auto simp: release_def set_pc_def)
        next
          case True
          have "records (gate_failed s g x) g = Some (rec\<lparr>status := Error,
              error := Some (str_exn x), task := map_option task_cancel (task rec)\<rparr>)"
            using gate_failed_records [of s g x] r by auto
          then have "records (step e s) g = Some (rec\<lparr>status := Error,
              error := Some (str_exn x), task := map_option task_cancel (task rec)\<rparr>)"
            using Poll In_gate Gate_raise True by (simp add: release_def set_pc_def)
          moreover have "calls s c = In_gate g d \<and> gate_iteration s g d now = Gate_raise x
              \<and> is_Exception x"
            using In_gate Gate_raise True by simp
          ultimately show ?thesis using t Poll by (auto simp: terminal_def)
        qed
      qed
    qed (use Poll r in simp_all)
  next
    case (Task_start g')
    show ?thesis
    proof (cases "g' = g \<and> phase tk = Task_unstarted")
      case True
      then have mc: "must_cancel tk" using stop by (auto simp: task_done_def)
      have "task_start s g = s\<lparr>records := (records s)(g \<mapsto> started_record rec tk)\<rparr>"
        using task_start_effect [OF r tk] True by simp
      then show ?thesis using Task_start True mc by (simp add: started_record_def)
    next
      case False
      show ?thesis
      proof (cases "g' = g")
        case True
        then have "task_start s g' = s" using False r tk by (intro task_start_idle) simp
        then show ?thesis using Task_start by (intro same) simp
      next
        case ne: False
        have "same_control s (task_start s g')" by (rule task_start_control)
        have "records (task_start s g') g = records s g"
          using ne by (auto simp: task_start_def run_game_begin_def set_task_phase_def
              put_record_def split: option.splits)
        then show ?thesis using Task_start by (intro same) simp
      qed
    qed
  next
    case (Task_finish g' out)
    show ?thesis
    proof (cases "g' = g")
      case True
      show ?thesis
      proof (cases "phase tk = Task_awaiting \<and> engine_outcome tk out")
        case A: True
        then have mc: "must_cancel tk" using stop by (auto simp: task_done_def)
        then have out: "out = Raises CancelledError" using A by (simp add: engine_outcome_def)
        have "task_finish s g out =
            s\<lparr>records := (records s)(g \<mapsto> finished_record g rec tk out),
              human_action_futures := (human_action_futures s)(g := None),
              future_objects := cancelled_futures s g\<rparr>"
          using task_finish_effect [OF r tk] A by simp
        then show ?thesis using Task_finish True out by (simp add: finished_record_def)
      next
        case False
        then have "task_finish s g out = s" using r tk by (intro task_finish_idle) simp
        then show ?thesis using Task_finish True by (intro same) simp
      qed
    next
      case ne: False
      have "records (task_finish s g' out) g = records s g"
      proof (cases "\<exists>rec' t'. records s g' = Some rec' \<and> task rec' = Some t'
          \<and> phase t' = Task_awaiting \<and> engine_outcome t' out")
        case True
        then obtain rec' t' where q: "records s g' = Some rec'" "task rec' = Some t'"
          "phase t' = Task_awaiting" "engine_outcome t' out" by blast
        show ?thesis unfolding task_finish_effect [OF q] using ne by simp
      next
        case False
        then have "task_finish s g' out = s"
          by (intro task_finish_idle) (metis not_Some_eq)
        then show ?thesis by simp
      qed
      then show ?thesis using Task_finish by (intro same) simp
    qed
  next
    case (Engine g' gm)
    show ?thesis
    proof (cases "g' = g")
      case True
      then show ?thesis using Engine r by (simp add: put_record_def)
    next
      case False
      then show ?thesis using Engine
        by (intro same) (simp add: put_record_def split: option.splits)
    qed
  next
    case (Human_waits g')
    then show ?thesis by (intro same) (simp add: human_waits_def split: option.splits)
  next
    case (Human_resumes g')
    then show ?thesis by (intro same) (simp add: human_resumes_def split: option.splits)
  next
    case (Submit g' idx tx)
    then show ?thesis by (intro same) (simp add: submit_frame)
  qed
qed

lemma terminal_run:
  assumes "inv s" "records s g = Some rec" "terminal (status rec)"
  shows "\<exists>rec'. records (run es s) g = Some rec' \<and> terminal (status rec')
           \<and> (status rec = Error \<longrightarrow> status rec' = Error)
           \<and> (\<not> in_gate_of s g \<longrightarrow> status rec' = status rec)
           \<and> ((\<forall>c now. Poll c now \<notin> set es) \<longrightarrow> status rec' = status rec)"
  using assms
proof (induction es arbitrary: s rec)
  case Nil
  then show ?case by simp
next
  case (Cons e es)
  from terminal_step [OF Cons.prems, of e] obtain r1
    where r1: "records (step e s) g = Some r1"
      and st: "status r1 = status rec
               \<or> (status rec = Completed \<and> status r1 = Error \<and> in_gate_of s g
                   \<and> (\<exists>c now. e = Poll c now))"
    unfolding in_gate_of_def by blast
  have I1: "inv (step e s)" by (rule inv_step [OF Cons.prems(1)])
  have t1: "terminal (status r1)" using st Cons.prems(3) by (auto simp: terminal_def)
  from Cons.IH [OF I1 r1 t1] obtain rec'
    where a: "records (run es (step e s)) g = Some rec'" "terminal (status rec')"
      "status r1 = Error \<longrightarrow> status rec' = Error"
      "\<not> in_gate_of (step e s) g \<longrightarrow> status rec' = status r1"
      "(\<forall>c now. Poll c now \<notin> set es) \<longrightarrow> status rec' = status r1"
    by blast
  have g1: "\<not> in_gate_of s g \<Longrightarrow> \<not> in_gate_of (step e s) g"
    using in_gate_of_step [OF Cons.prems(1), of g e] Cons.prems(2) by simp
  show ?case using a st g1 by (auto simp: terminal_def)
qed

lemma terminal_submit:
  "records s g = Some rec \<Longrightarrow> terminal (status rec) \<Longrightarrow>
     submit_human_action s g idx t
       = (Inl (RuntimeError (''Game '' @ str_int g @ '' is already ''
                              @ status_str (status rec) @ ''.'')), s)"
  by (auto simp: submit_human_action_def terminal_def)

text \<open>
  C3 as stated does not hold. The handler of a failed gate assigns \<^verbatim>\<open>"error"\<close> without looking at the status (line
  160). In the session whose simulation ran to its end before a human agent was seen, the
  status is \<^verbatim>\<open>"completed"\<close>, the call is still in the gate, and the next iteration of the
  gate makes the status \<^verbatim>\<open>"error"\<close>.
\<close>

theorem terminal_status_counterexample:
  "map_option status (records demo_early_end 1) = Some Completed
   \<and> map_option status (records (step (Poll 0 50) demo_early_end) 1) = Some Error"
  by (simp add: demo_early_end_eval gate_iteration_def gate_body_def task_done_def
        gate_failed_def step_defs)

text \<open>
  C3, as amended. Once the status of a record is \<^verbatim>\<open>"completed"\<close> or \<^verbatim>\<open>"error"\<close>, it
  is one of the two in every later state; \<^verbatim>\<open>"error"\<close> never changes; \<^verbatim>\<open>"completed"\<close>
  never changes once the call that created the game has left the gate, and before that
  the only step that changes it is an iteration of the gate that raises an
  \<^verbatim>\<open>Exception\<close>, whose handler makes it \<^verbatim>\<open>"error"\<close>. The task, the success path of
  \<^verbatim>\<open>create_game\<close> and the submissions never change it. Every later submission
  for the id fails with the \<^verbatim>\<open>RuntimeError\<close> "Game N is already completed." or
  "Game N is already error." and changes nothing.
\<close>

theorem terminal_status:
  assumes "records (run es init) g = Some rec"
    and "status rec = Completed \<or> status rec = Error"
  shows "\<exists>rec'. records (run es' (run es init)) g = Some rec'
           \<and> (status rec' = Completed \<or> status rec' = Error)
           \<and> (status rec = Error \<longrightarrow> status rec' = Error)
           \<and> (\<not> in_gate_of (run es init) g \<longrightarrow> status rec' = status rec)
           \<and> ((\<forall>c now. Poll c now \<notin> set es') \<longrightarrow> status rec' = status rec)
           \<and> (\<forall>e. \<exists>r1. records (step e (run es' (run es init))) g = Some r1
                 \<and> (status r1 = status rec'
                      \<or> (status rec' = Completed \<and> status r1 = Error
                          \<and> (\<exists>c now d x. e = Poll c now
                                 \<and> calls (run es' (run es init)) c = In_gate g d
                                 \<and> gate_iteration (run es' (run es init)) g d now = Gate_raise x
                                 \<and> is_Exception x))))
           \<and> (\<forall>idx t. submit_human_action (run es' (run es init)) g idx t
                 = (Inl (RuntimeError (''Game '' @ str_int g @ '' is already ''
                                        @ status_str (status rec') @ ''.'')),
                    run es' (run es init)))"
proof -
  have t: "terminal (status rec)" using assms(2) by (simp add: terminal_def)
  from terminal_run [OF inv_run assms(1) t, of es'] obtain rec'
    where a: "records (run es' (run es init)) g = Some rec'" "terminal (status rec')"
      "status rec = Error \<longrightarrow> status rec' = Error"
      "\<not> in_gate_of (run es init) g \<longrightarrow> status rec' = status rec"
      "(\<forall>c now. Poll c now \<notin> set es') \<longrightarrow> status rec' = status rec"
    by blast
  have "inv (run es' (run es init))" by (rule inv_run_from [OF inv_run])
  from terminal_step [OF this a(1,2)]
  have b: "\<forall>e. \<exists>r1. records (step e (run es' (run es init))) g = Some r1
                 \<and> (status r1 = status rec'
                      \<or> (status rec' = Completed \<and> status r1 = Error
                          \<and> (\<exists>c now d x. e = Poll c now
                                 \<and> calls (run es' (run es init)) c = In_gate g d
                                 \<and> gate_iteration (run es' (run es init)) g d now = Gate_raise x
                                 \<and> is_Exception x)))"
    by blast
  have c: "status rec' = Completed \<or> status rec' = Error" using a(2) by (simp add: terminal_def)
  from terminal_submit [OF a(1,2)] a(1,3,4,5) b c show ?thesis by blast
qed

lemma demo_finished_calls: "calls demo_finished c = (if c = 0 then Returned 1 else Not_called)"
  by (simp add: demo_finished_def demo_defs step_defs str_int_def digits.simps)

theorem terminal_status_witness:
  "map_option status (records demo_finished 1) = Some Completed
   \<and> map_option status
        (records (run [Poll 0 60, Task_start 1, Task_finish 1 (Raises (Other_exception ''late'')),
                       Engine 1 blank_game] demo_finished) 1) = Some Completed
   \<and> submit_human_action (run [Human_waits 1] demo_finished) 1 0 None
       = (Inl (RuntimeError ''Game 1 is already completed.''), run [Human_waits 1] demo_finished)
   \<and> map_option status (records (run [Human_waits 1, Task_start 1] demo_early_end) 1)
       = Some Completed"
proof -
  have r: "records (run (demo_create @ [Human_waits 1, Task_finish 1 Returns]) init) 1
      = Some (the (records demo_finished 1))"
    unfolding demo_finished_def [symmetric] by (simp add: demo_finished_eval)
  have st: "status (the (records demo_finished 1)) = Completed \<or>
      status (the (records demo_finished 1)) = Error"
    by (simp add: demo_finished_eval)
  have ng: "\<not> in_gate_of demo_finished 1"
    by (simp add: in_gate_of_def demo_finished_calls)
  note T = terminal_status [OF r st, unfolded demo_finished_def [symmetric]]
  from T [of "[Poll 0 60, Task_start 1, Task_finish 1 (Raises (Other_exception ''late'')),
               Engine 1 blank_game]"] ng
  have a: "map_option status
        (records (run [Poll 0 60, Task_start 1, Task_finish 1 (Raises (Other_exception ''late'')),
                       Engine 1 blank_game] demo_finished) 1) = Some Completed"
    by (auto simp: demo_finished_eval simp del: run.simps)
  from T [of "[Human_waits 1]"] ng
  have b: "submit_human_action (run [Human_waits 1] demo_finished) 1 0 None
       = (Inl (RuntimeError ''Game 1 is already completed.''), run [Human_waits 1] demo_finished)"
    by (auto simp: demo_finished_eval str_int_def digits.simps simp del: run.simps)
  have r2: "records (run (demo_begin @ [Task_finish 1 Returns]) init) 1
      = Some (the (records demo_early_end 1))"
    unfolding demo_early_end_def [symmetric] by (simp add: demo_early_end_eval)
  have st2: "status (the (records demo_early_end 1)) = Completed \<or>
      status (the (records demo_early_end 1)) = Error"
    by (simp add: demo_early_end_eval)
  from terminal_status [OF r2 st2, unfolded demo_early_end_def [symmetric],
      of "[Human_waits 1, Task_start 1]"]
  have c: "map_option status (records (run [Human_waits 1, Task_start 1] demo_early_end) 1)
       = Some Completed"
    by (auto simp: demo_early_end_eval simp del: run.simps)
  from a b c show ?thesis by (simp add: demo_finished_eval del: run.simps)
qed

subsection \<open>The end of a task and the registered future\<close>

lemma task_done_cancel: "task_done (task_cancel t) = task_done t"
  by (simp add: task_cancel_def task_done_def)

lemma task_finished_records:
  "records s' g = records s g \<Longrightarrow> task_finished s' g = task_finished s g"
  by (simp add: task_finished_def)

lemma task_exit_event:
  assumes I: "inv s" and n: "\<not> task_finished s g" and f: "task_finished (step e s) g"
  shows "e = Task_start g \<or> (\<exists>out. e = Task_finish g out)"
proof -
  have same: "records (step e s) g = records s g \<Longrightarrow> ?thesis"
    using n f task_finished_records by blast
  show ?thesis
  proof (cases e)
    case (Call c key)
    then show ?thesis by (intro same) (simp add: set_pc_def)
  next
    case (Acquire c)
    then show ?thesis by (intro same) (simp add: set_pc_def)
  next
    case (Read_id c)
    then show ?thesis by (intro same) (simp add: set_pc_def)
  next
    case (Incr_id c)
    then show ?thesis by (intro same) (simp add: set_pc_def split: call_pc.splits)
  next
    case (Construct c res now)
    then have False using n f
      by (auto simp: task_finished_def set_pc_def release_def put_record_def new_record_def
            task_done_def split: call_pc.splits sum.splits if_splits)
    then show ?thesis ..
  next
    case (Poll c now)
    show ?thesis
    proof (cases "calls s c")
      case (In_gate g' d)
      have a: "task_finished (gate_passed s g') g = task_finished s g"
        using gate_passed_records [of s g']
        by (cases "g' = g") (auto simp: task_finished_def)
      have b: "task_finished (gate_failed s g' x) g = task_finished s g" for x
        using gate_failed_records [of s g' x]
        by (cases "g' = g") (auto simp: task_finished_def task_done_cancel split: option.splits)
      have "task_finished (step e s) g = task_finished s g"
        using Poll In_gate a b
        by (auto simp: task_finished_def release_def set_pc_def split: gate_step.splits)
      then show ?thesis using n f by simp
    qed (use Poll n f in simp_all)
  next
    case (Task_start g')
    show ?thesis
    proof (cases "g' = g")
      case True
      then show ?thesis using Task_start by simp
    next
      case False
      then have "records (task_start s g') g = records s g"
        by (auto simp: task_start_def run_game_begin_def set_task_phase_def
              put_record_def split: option.splits)
      then show ?thesis using Task_start by (intro same) simp
    qed
  next
    case (Task_finish g' out)
    show ?thesis
    proof (cases "g' = g")
      case True
      then show ?thesis using Task_finish by simp
    next
      case ne: False
      have "records (task_finish s g' out) g = records s g"
      proof (cases "\<exists>rec' t'. records s g' = Some rec' \<and> task rec' = Some t'
          \<and> phase t' = Task_awaiting \<and> engine_outcome t' out")
        case True
        then obtain rec' t' where q: "records s g' = Some rec'" "task rec' = Some t'"
          "phase t' = Task_awaiting" "engine_outcome t' out" by blast
        show ?thesis unfolding task_finish_effect [OF q] using ne by simp
      next
        case False
        then have "task_finish s g' out = s"
          by (intro task_finish_idle) (metis not_Some_eq)
        then show ?thesis by simp
      qed
      then show ?thesis using Task_finish by (intro same) simp
    qed
  next
    case (Engine g' gm)
    have "task_finished (step e s) g = task_finished s g"
      using Engine by (auto simp: task_finished_def put_record_def split: option.splits)
    then show ?thesis using n f by simp
  next
    case (Human_waits g')
    then show ?thesis by (intro same) (simp add: human_waits_def split: option.splits)
  next
    case (Human_resumes g')
    then show ?thesis by (intro same) (simp add: human_resumes_def split: option.splits)
  next
    case (Submit g' idx tx)
    then show ?thesis by (intro same) (simp add: submit_frame)
  qed
qed

lemma finished_no_entry:
  assumes "inv s" "task_finished s g"
  shows "human_action_futures s g = None"
proof (cases "human_action_futures s g")
  case (Some a)
  have "inv_fut s" using assms(1) by (simp add: inv_def)
  from inv_fut_waiting [OF this Some] assms(2) show ?thesis
    by (auto simp: task_finished_def task_done_def)
qed simp

lemma no_entry_rejected:
  "human_action_futures s g = None \<Longrightarrow> \<exists>x. submit_human_action s g idx t = (Inl x, s)"
  by (auto simp: submit_human_action_def Let_def split: option.splits)

lemma exit_cancels:
  assumes I: "inv s" and n: "\<not> task_finished s g" and f: "task_finished (step e s) g"
    and h: "human_action_futures s g = Some a"
  shows "future_objects (step e s) a
       = (if future_done (future_objects s a) then future_objects s a else Fut_cancelled)"
proof -
  have F: "inv_fut s" using I by (simp add: inv_def)
  from inv_fut_waiting [OF F h] obtain rec t
    where r: "records s g = Some rec" "task rec = Some t" "phase t = Task_awaiting" by blast
  from task_exit_event [OF I n f] show ?thesis
  proof
    assume e: "e = Task_start g"
    have "task_start s g = s" using r by (intro task_start_idle) simp
    then show ?thesis using e n f by simp
  next
    assume "\<exists>out. e = Task_finish g out"
    then obtain out where e: "e = Task_finish g out" by blast
    show ?thesis
    proof (cases "engine_outcome t out")
      case True
      show ?thesis unfolding e step.simps task_finish_effect [OF r True]
        using h by (simp add: cancelled_futures_def)
    next
      case False
      then have "task_finish s g out = s" using r by (intro task_finish_idle) simp
      then show ?thesis using e n f by simp
    qed
  qed
qed

text \<open>
  C4. In every reachable state, a game whose task has ended has no entry in
  \<^verbatim>\<open>human_action_futures\<close>, and every submission for its id is rejected and changes
  nothing. A step that ends the task of a game is a step of that task (its end by return,
  by exception or by cancellation, or its cancellation before it ran); after it the entry
  of the id is gone, and the future that was registered under the id is cancelled if it
  was not yet done.
\<close>

theorem task_exit_cleanup:
  "(task_finished (run es init) g \<longrightarrow>
      human_action_futures (run es init) g = None
      \<and> (\<forall>idx t. \<exists>x. submit_human_action (run es init) g idx t = (Inl x, run es init)))
   \<and> (\<not> task_finished (run es init) g \<and> task_finished (step e (run es init)) g \<longrightarrow>
        (e = Task_start g \<or> (\<exists>out. e = Task_finish g out))
        \<and> human_action_futures (step e (run es init)) g = None
        \<and> (\<forall>a. human_action_futures (run es init) g = Some a \<longrightarrow>
              future_objects (step e (run es init)) a
                = (if future_done (future_objects (run es init) a)
                   then future_objects (run es init) a else Fut_cancelled)))"
proof (intro conjI impI)
  assume f: "task_finished (run es init) g"
  show "human_action_futures (run es init) g = None"
    by (rule finished_no_entry [OF inv_run f])
  then show "\<forall>idx t. \<exists>x. submit_human_action (run es init) g idx t = (Inl x, run es init)"
    using no_entry_rejected by blast
next
  assume a: "\<not> task_finished (run es init) g \<and> task_finished (step e (run es init)) g"
  then have n: "\<not> task_finished (run es init) g" and f: "task_finished (step e (run es init)) g"
    by simp_all
  show "e = Task_start g \<or> (\<exists>out. e = Task_finish g out)"
    by (rule task_exit_event [OF inv_run n f])
  show "human_action_futures (step e (run es init)) g = None"
    by (rule finished_no_entry [OF inv_step [OF inv_run] f])
  show "\<forall>a. human_action_futures (run es init) g = Some a \<longrightarrow>
              future_objects (step e (run es init)) a
                = (if future_done (future_objects (run es init) a)
                   then future_objects (run es init) a else Fut_cancelled)"
    using exit_cancels [OF inv_run n f] by blast
qed

theorem task_exit_cleanup_witness:
  "human_action_futures demo_waiting 1 = Some 0 \<and> future_objects demo_waiting 0 = Fut_pending
   \<and> \<not> task_finished demo_waiting 1
   \<and> task_finished (step (Task_finish 1 (Raises CancelledError)) demo_waiting) 1
   \<and> human_action_futures (step (Task_finish 1 (Raises CancelledError)) demo_waiting) 1 = None
   \<and> future_objects (step (Task_finish 1 (Raises CancelledError)) demo_waiting) 0 = Fut_cancelled
   \<and> task_finished demo_finished 1
   \<and> human_action_futures demo_finished 1 = None
   \<and> (\<exists>x. submit_human_action demo_finished 1 3 (Some ''hello'') = (Inl x, demo_finished))"
proof -
  note T = task_exit_cleanup [of "demo_create @ [Human_waits 1]" 1
      "Task_finish 1 (Raises CancelledError)", folded demo_waiting_def]
  note U = task_exit_cleanup [of "demo_create @ [Human_waits 1, Task_finish 1 Returns]" 1
      "Task_finish 1 Returns", folded demo_finished_def]
  have n: "\<not> task_finished demo_waiting 1"
    by (simp add: task_finished_def demo_waiting_eval task_done_def)
  have f: "task_finished (step (Task_finish 1 (Raises CancelledError)) demo_waiting) 1"
    by (simp add: task_finished_def task_finish_def demo_waiting_eval engine_outcome_def
          run_game_resume_def cleanup_future_def set_task_phase_def put_record_def
          ended_phase_def task_done_def)
  have f2: "task_finished demo_finished 1"
    by (simp add: task_finished_def demo_finished_eval task_done_def)
  from T n f have a: "human_action_futures (step (Task_finish 1 (Raises CancelledError)) demo_waiting) 1 = None
      \<and> future_objects (step (Task_finish 1 (Raises CancelledError)) demo_waiting) 0 = Fut_cancelled"
    by (simp add: demo_waiting_eval del: step.simps)
  from U f2 have b: "human_action_futures demo_finished 1 = None
      \<and> (\<exists>x. submit_human_action demo_finished 1 3 (Some ''hello'') = (Inl x, demo_finished))"
    by blast
  from a b n f f2 demo_waiting_eval(3,4) show ?thesis by (simp del: step.simps)
qed

subsection \<open>A failure of the run loop\<close>

text \<open>
  C8. Let the run loop of a game raise an \<^verbatim>\<open>Exception\<close> while its task is at the
  \<^verbatim>\<open>await\<close>, in any reachable state. Then no exception leaves \<^verbatim>\<open>_run_game\<close>; the
  record of the game gets the status \<^verbatim>\<open>"error"\<close> and the text of the exception, and its
  result fields are unset; the records, the registered futures and the future objects of
  all other games, the calls of \<^verbatim>\<open>create_game\<close>, the lock and the counter are as
  before; and the task ends as done, holding no exception.
\<close>

theorem run_loop_failure_contained:
  assumes r: "records (run es init) gid = Some rec"
    and t: "task rec = Some t" and p: "phase t = Task_awaiting"
    and x: "is_Exception exc"
  shows "\<exists>s2. run_game_resume (run es init) gid (Raises exc) = (None, s2)
     \<and> records s2 gid = Some (rec\<lparr>status := Error, error := Some (str_exn exc)\<rparr>)
     \<and> winner rec = None \<and> winner_reason rec = None
     \<and> (\<forall>g. g \<noteq> gid \<longrightarrow>
            records s2 g = records (run es init) g
            \<and> human_action_futures s2 g = human_action_futures (run es init) g
            \<and> (\<forall>a. human_action_futures (run es init) g = Some a \<longrightarrow>
                  future_objects s2 a = future_objects (run es init) a))
     \<and> calls s2 = calls (run es init) \<and> init_lock s2 = init_lock (run es init)
     \<and> next_game_id s2 = next_game_id (run es init)
     \<and> (\<not> must_cancel t \<longrightarrow>
            step (Task_finish gid (Raises exc)) (run es init)
              = set_task_phase s2 gid (Task_done None)
            \<and> records (step (Task_finish gid (Raises exc)) (run es init)) gid
              = Some (rec\<lparr>status := Error, error := Some (str_exn exc),
                         task := Some (t\<lparr>phase := Task_done None\<rparr>)\<rparr>))"
proof -
  let ?s = "run es init"
  let ?s2 = "cleanup_future (put_record ?s gid (rec\<lparr>status := Error,
      error := Some (str_exn exc)\<rparr>)) gid"
  have I: "inv ?s" by (rule inv_run)
  have T: "inv_task ?s" and F: "inv_fut ?s" using I by (simp_all add: inv_def)
  have res: "run_game_resume ?s gid (Raises exc) = (None, ?s2)"
    using r x by (simp add: run_game_resume_def)
  have rec2: "records ?s2 gid = Some (rec\<lparr>status := Error, error := Some (str_exn exc)\<rparr>)"
    by (simp add: cleanup_frame put_record_frame)
  have w: "winner rec = None \<and> winner_reason rec = None"
    using inv_taskD [OF T r] t p by (simp add: record_ok_def task_done_def)
  have sib: "\<forall>g. g \<noteq> gid \<longrightarrow>
            records ?s2 g = records ?s g
            \<and> human_action_futures ?s2 g = human_action_futures ?s g
            \<and> (\<forall>a. human_action_futures ?s g = Some a \<longrightarrow>
                  future_objects ?s2 a = future_objects ?s a)"
  proof (intro allI impI conjI)
    fix g assume ne: "g \<noteq> gid"
    show "records ?s2 g = records ?s g" using ne by (simp add: cleanup_frame put_record_frame)
    show "human_action_futures ?s2 g = human_action_futures ?s g"
      using ne by (simp add: cleanup_frame put_record_frame)
    fix a assume h: "human_action_futures ?s g = Some a"
    have "human_action_futures ?s gid \<noteq> Some a" using inv_fut_inj [OF F h] ne by blast
    then show "future_objects ?s2 a = future_objects ?s a"
      by (auto simp: cleanup_future_def put_record_def Let_def split: option.splits)
  qed
  have frame: "calls ?s2 = calls ?s \<and> init_lock ?s2 = init_lock ?s
      \<and> next_game_id ?s2 = next_game_id ?s"
    by (simp add: cleanup_frame put_record_frame)
  have fin: "\<not> must_cancel t \<longrightarrow>
            step (Task_finish gid (Raises exc)) ?s = set_task_phase ?s2 gid (Task_done None)
            \<and> records (step (Task_finish gid (Raises exc)) ?s) gid
              = Some (rec\<lparr>status := Error, error := Some (str_exn exc),
                         task := Some (t\<lparr>phase := Task_done None\<rparr>)\<rparr>)"
    using r t p res rec2
    by (simp add: task_finish_def engine_outcome_def ended_phase_def set_task_phase_def
          put_record_def)
  from res rec2 w sib frame fin show ?thesis by blast
qed

theorem run_loop_failure_contained_witness:
  "records demo_failed_early 1 = Some \<lparr>game_id = 1, game = blank_game, status = Error,
        task = Some \<lparr>phase = Task_done None, must_cancel = False\<rparr>,
        error = Some ''boom'', winner = None, winner_reason = None\<rparr>
   \<and> fst (run_game_resume demo_starting 1 (Raises (Other_exception ''boom''))) = None
   \<and> calls demo_failed_early 0 = calls demo_starting 0"
proof -
  have r: "records (run demo_begin init) 1 = Some (the (records demo_starting 1))"
    unfolding demo_starting_def [symmetric] by (simp add: demo_starting_eval)
  have e: "demo_failed_early = step (Task_finish 1 (Raises (Other_exception ''boom''))) demo_starting"
    by (simp add: demo_failed_early_def demo_starting_def run_append)
  from run_loop_failure_contained [OF r, of "\<lparr>phase = Task_awaiting, must_cancel = False\<rparr>"
      "Other_exception ''boom''", unfolded demo_starting_def [symmetric]]
  obtain s2 where
    a: "run_game_resume demo_starting 1 (Raises (Other_exception ''boom'')) = (None, s2)"
    and b: "records (step (Task_finish 1 (Raises (Other_exception ''boom''))) demo_starting) 1
       = Some ((the (records demo_starting 1))\<lparr>status := Error,
           error := Some (str_exn (Other_exception ''boom'')),
           task := Some (\<lparr>phase = Task_awaiting, must_cancel = False\<rparr>\<lparr>phase := Task_done None\<rparr>)\<rparr>)"
    by (auto simp: demo_starting_eval simp del: step.simps)
  from a b show ?thesis unfolding e [symmetric]
    by (simp add: demo_starting_eval demo_failed_early_eval)
qed

subsection \<open>A failure of the gate\<close>





end
